theory Spec2Isabelle
  imports Complex_Main
begin

section \<open>Numbers as the Python code sees them\<close>

text \<open>
  A coordinate read from a model answer is a Python \<open>int\<close> or \<open>float\<close>. Finite values are
  modelled as rationals (ints and finite floats are ordered exactly as the rationals they
  denote; the rounding of float multiplication is not modelled). The three non-finite floats
  that \<open>json.loads\<close> accepts are kept as values of their own, with the comparisons of
  IEEE 754: every comparison with \<open>NaN\<close> is false.
\<close>

datatype pynum = Fin rat | NaN | PInf | NInf

fun py_lt :: "pynum \<Rightarrow> pynum \<Rightarrow> bool" where
  "py_lt (Fin a) (Fin b) = (a < b)"
| "py_lt (Fin a) PInf = True"
| "py_lt NInf (Fin b) = True"
| "py_lt NInf PInf = True"
| "py_lt _ _ = False"

fun py_le :: "pynum \<Rightarrow> pynum \<Rightarrow> bool" where
  "py_le (Fin a) (Fin b) = (a \<le> b)"
| "py_le (Fin a) PInf = True"
| "py_le NInf (Fin b) = True"
| "py_le NInf PInf = True"
| "py_le PInf PInf = True"
| "py_le NInf NInf = True"
| "py_le _ _ = False"

text \<open>
  The builtins \<open>min(a, b)\<close> and \<open>max(a, b)\<close> keep the first argument unless the second is
  strictly smaller (greater).
\<close>

definition py_min :: "pynum \<Rightarrow> pynum \<Rightarrow> pynum" where
  "py_min a b = (if py_lt b a then b else a)"

definition py_max :: "pynum \<Rightarrow> pynum \<Rightarrow> pynum" where
  "py_max a b = (if py_lt a b then b else a)"

text \<open>\<open>x * image_width\<close> for an integer image width.\<close>

fun py_mul :: "pynum \<Rightarrow> nat \<Rightarrow> pynum" where
  "py_mul (Fin a) w = Fin (a * of_nat w)"
| "py_mul NaN w = NaN"
| "py_mul PInf w = (if w = 0 then NaN else PInf)"
| "py_mul NInf w = (if w = 0 then NaN else NInf)"

datatype py_error = ValueError | TypeError

section \<open>Text\<close>

text \<open>
  A text is a list of 8-bit characters, read as the code points below 256. The character
  classes of Python's \<open>re\<close> on such text: \<open>\s\<close> (\<open>str.isspace\<close>), \<open>\d\<close> and
  \<open>\w\<close> (alphanumeric or underscore).
\<close>

definition is_space :: "char \<Rightarrow> bool" where
  "is_space c = (let n = (of_char c :: nat) in
     (9 \<le> n \<and> n \<le> 13) \<or> (28 \<le> n \<and> n \<le> 32) \<or> n = 133 \<or> n = 160)"

definition is_digit :: "char \<Rightarrow> bool" where
  "is_digit c = (let n = (of_char c :: nat) in 48 \<le> n \<and> n \<le> 57)"

definition is_word :: "char \<Rightarrow> bool" where
  "is_word c = (let n = (of_char c :: nat) in
     (48 \<le> n \<and> n \<le> 57) \<or> (65 \<le> n \<and> n \<le> 90) \<or> n = 95 \<or> (97 \<le> n \<and> n \<le> 122)
     \<or> n = 170 \<or> n = 178 \<or> n = 179 \<or> n = 181 \<or> n = 185 \<or> n = 186
     \<or> (188 \<le> n \<and> n \<le> 190) \<or> (192 \<le> n \<and> n \<le> 214) \<or> (216 \<le> n \<and> n \<le> 246)
     \<or> 248 \<le> n)"

definition any_char :: "char \<Rightarrow> bool" where
  "any_char c = True"

definition not_newline :: "char \<Rightarrow> bool" where
  "not_newline c = (c \<noteq> CHR 0x0A)"

section \<open>Regular expressions: backtracking search as \<open>re.findall\<close> does it\<close>

text \<open>
  The fragment of \<open>re\<close> the four patterns of the extraction use. A pattern is a sequence
  of items: one character of a class, a greedy or a lazy repetition of a class, a greedy
  optional group, the start and the end of capture group \<open>n\<close>, and \<open>$\<close> (without
  \<open>re.MULTILINE\<close>: the end of the text, or just before a newline that ends it).
\<close>

datatype rx =
    Chr "char \<Rightarrow> bool"
  | Star "char \<Rightarrow> bool"
  | LazyStar "char \<Rightarrow> bool"
  | Opt "rx list"
  | GOpen nat
  | GClose nat
  | Eos

text \<open>
  The state of a match attempt: where each group was opened (the text that was left
  there) and what each closed group captured.
\<close>

type_synonym rx_state = "(nat \<times> string) list \<times> (nat \<times> string) list"

text \<open>
  \<open>rx_match k s st\<close> matches the items \<open>k\<close> at the start of \<open>s\<close> and returns the text
  left after the match. Alternatives are tried in the order of the backtracking matcher:
  a greedy repetition takes one more character first, a lazy one tries the rest of the
  pattern first, an optional group is tried before it is skipped.
\<close>

fun rx_match :: "rx list \<Rightarrow> string \<Rightarrow> rx_state \<Rightarrow> (string \<times> rx_state) option" where
  "rx_match [] s st = Some (s, st)"
| "rx_match (Chr p # k) s st =
     (case s of [] \<Rightarrow> None | c # cs \<Rightarrow> if p c then rx_match k cs st else None)"
| "rx_match (Star p # k) s st =
     (case s of
        [] \<Rightarrow> rx_match k s st
      | c # cs \<Rightarrow>
          if p c then (case rx_match (Star p # k) cs st of
                         Some r \<Rightarrow> Some r
                       | None \<Rightarrow> rx_match k s st)
          else rx_match k s st)"
| "rx_match (LazyStar p # k) s st =
     (case rx_match k s st of
        Some r \<Rightarrow> Some r
      | None \<Rightarrow>
          (case s of
             [] \<Rightarrow> None
           | c # cs \<Rightarrow> if p c then rx_match (LazyStar p # k) cs st else None))"
| "rx_match (Opt r # k) s st =
     (case rx_match (r @ k) s st of Some x \<Rightarrow> Some x | None \<Rightarrow> rx_match k s st)"
| "rx_match (GOpen n # k) s (opened, captured) = rx_match k s ((n, s) # opened, captured)"
| "rx_match (GClose n # k) s (opened, captured) =
     rx_match k s
       (opened,
        (n, case map_of opened n of
              Some b \<Rightarrow> take (length b - length s) b
            | None \<Rightarrow> []) # captured)"
| "rx_match (Eos # k) s st =
     (if s = [] \<or> s = [CHR 0x0A] then rx_match k s st else None)"

text \<open>What group \<open>n\<close> captured; the empty string when it took no part in the match.\<close>

definition rx_group :: "nat \<Rightarrow> rx_state \<Rightarrow> string" where
  "rx_group n st = (case map_of (snd st) n of Some t \<Rightarrow> t | None \<Rightarrow> [])"

text \<open>
  \<open>re.findall\<close>: the matches from left to right, without overlap; the search goes on
  where the last match ended (one character further after an empty match or where
  nothing matches).
\<close>

fun findall :: "rx list \<Rightarrow> string \<Rightarrow> rx_state list" where
  "findall r s =
     (case rx_match r s ([], []) of
        Some (rest, st) \<Rightarrow>
          st # (if length rest < length s then findall r rest
                else (case s of [] \<Rightarrow> [] | c # cs \<Rightarrow> findall r cs))
      | None \<Rightarrow> (case s of [] \<Rightarrow> [] | c # cs \<Rightarrow> findall r cs))"

declare findall.simps [simp del]

definition lit :: "string \<Rightarrow> rx list" where
  "lit s = map (\<lambda>c. Chr (\<lambda>x. x = c)) s"

text \<open>\<^verbatim>\<open>```(?:\w+)?\s*(.*?)\s*```\<close> with \<open>re.DOTALL\<close>.\<close>

definition code_block_pattern :: "rx list" where
  "code_block_pattern =
     lit ''```'' @ [Opt [Chr is_word, Star is_word], Star is_space,
                    GOpen 1, LazyStar any_char, GClose 1, Star is_space] @ lit ''```''"

text \<open>\<^verbatim>\<open><answer>(.*?)</answer>\<close> with \<open>re.DOTALL\<close>.\<close>

definition answer_pattern :: "rx list" where
  "answer_pattern = lit ''<answer>'' @ [GOpen 1, LazyStar any_char, GClose 1] @ lit ''</answer>''"

text \<open>\<^verbatim>\<open>bbox2d\s+([^\s$]+?)\s*$(.*?)$\<close>, no flags.\<close>

definition label_char :: "char \<Rightarrow> bool" where
  "label_char c = (\<not> is_space c \<and> c \<noteq> CHR ''$'')"

definition bbox2d_pattern :: "rx list" where
  "bbox2d_pattern =
     lit ''bbox2d'' @ [Chr is_space, Star is_space,
                       GOpen 1, Chr label_char, LazyStar label_char, GClose 1,
                       Star is_space, Eos, GOpen 2, LazyStar not_newline, GClose 2, Eos]"

text \<open>\<^verbatim>\<open>(\d+(?:\.\d+)?)\<close>.\<close>

definition coord_pattern :: "rx list" where
  "coord_pattern =
     [GOpen 1, Chr is_digit, Star is_digit,
      Opt [Chr (\<lambda>x. x = CHR ''.''), Chr is_digit, Star is_digit], GClose 1]"

section \<open>JSON values and \<open>json.loads\<close>\<close>

text \<open>
  A decoded value. A decoded string is a list of code points (an escape \<^verbatim>\<open>\uXXXX\<close>
  can name any); an object is the list of its keys and values in the order of first
  insertion, a repeated key keeping its place and taking the last value, as a Python
  \<open>dict\<close> does.
\<close>

datatype json =
    JNull
  | JBool bool
  | JNum pynum
  | JStr "nat list"
  | JArr "json list"
  | JObj "(nat list \<times> json) list"

definition ustr :: "string \<Rightarrow> nat list" where
  "ustr s = map of_char s"

fun dict_set :: "(nat list \<times> json) list \<Rightarrow> nat list \<Rightarrow> json \<Rightarrow> (nat list \<times> json) list" where
  "dict_set [] k v = [(k, v)]"
| "dict_set ((k', v') # d) k v = (if k' = k then (k, v) # d else (k', v') # dict_set d k v)"

definition json_ws :: "char \<Rightarrow> bool" where
  "json_ws c = (c = CHR '' '' \<or> c = CHR 0x09 \<or> c = CHR 0x0A \<or> c = CHR 0x0D)"

definition skip_ws :: "string \<Rightarrow> string" where
  "skip_ws s = dropWhile json_ws s"

subsection \<open>Strings\<close>

definition hexval :: "char \<Rightarrow> nat option" where
  "hexval c = (let n = (of_char c :: nat) in
     if 48 \<le> n \<and> n \<le> 57 then Some (n - 48)
     else if 65 \<le> n \<and> n \<le> 70 then Some (n - 55)
     else if 97 \<le> n \<and> n \<le> 102 then Some (n - 87)
     else None)"

definition hex4 :: "char \<Rightarrow> char \<Rightarrow> char \<Rightarrow> char \<Rightarrow> nat option" where
  "hex4 a b c d =
     (case (hexval a, hexval b, hexval c, hexval d) of
        (Some x, Some y, Some z, Some w) \<Rightarrow> Some (((x * 16 + y) * 16 + z) * 16 + w)
      | _ \<Rightarrow> None)"

definition escape_char :: "char \<Rightarrow> nat option" where
  "escape_char e =
     (if e = CHR 0x22 then Some 34
      else if e = CHR 0x5C then Some 92
      else if e = CHR ''/'' then Some 47
      else if e = CHR ''b'' then Some 8
      else if e = CHR ''f'' then Some 12
      else if e = CHR ''n'' then Some 10
      else if e = CHR ''r'' then Some 13
      else if e = CHR ''t'' then Some 9
      else None)"

definition decode_u4 :: "string \<Rightarrow> (nat \<times> string) option" where
  "decode_u4 s =
     (case s of
        h1 # h2 # h3 # h4 # r \<Rightarrow> (case hex4 h1 h2 h3 h4 of None \<Rightarrow> None | Some u \<Rightarrow> Some (u, r))
      | _ \<Rightarrow> None)"

text \<open>A second escape \<^verbatim>\<open>\uXXXX\<close> that is a low surrogate.\<close>

definition decode_low_surrogate :: "string \<Rightarrow> (nat \<times> string) option" where
  "decode_low_surrogate s =
     (case s of
        b # v # r \<Rightarrow>
          if b = CHR 0x5C \<and> v = CHR ''u'' then
            (case decode_u4 r of
               Some (u2, r2) \<Rightarrow> if 0xDC00 \<le> u2 \<and> u2 \<le> 0xDFFF then Some (u2, r2) else None
             | None \<Rightarrow> None)
          else None
      | _ \<Rightarrow> None)"

text \<open>
  The escape after a backslash: one of the eight one-letter escapes, or \<^verbatim>\<open>\uXXXX\<close>;
  a high surrogate followed by an escaped low surrogate is the one code point of the pair.
\<close>

definition decode_escape :: "string \<Rightarrow> (nat \<times> string) option" where
  "decode_escape s =
     (case s of
        [] \<Rightarrow> None
      | e # es \<Rightarrow>
          if e = CHR ''u'' then
            (case decode_u4 es of
               None \<Rightarrow> None
             | Some (u, r) \<Rightarrow>
                 if 0xD800 \<le> u \<and> u \<le> 0xDBFF then
                   (case decode_low_surrogate r of
                      Some (u2, r2) \<Rightarrow> Some (0x10000 + (u - 0xD800) * 0x400 + (u2 - 0xDC00), r2)
                    | None \<Rightarrow> Some (u, r))
                 else Some (u, r))
          else (case escape_char e of None \<Rightarrow> None | Some x \<Rightarrow> Some (x, es)))"

lemma decode_u4_length: "decode_u4 s = Some (u, r) \<Longrightarrow> length r < length s"
  by (auto simp: decode_u4_def split: list.splits option.splits)

lemma decode_low_surrogate_length: "decode_low_surrogate s = Some (u, r) \<Longrightarrow> length r < length s"
  by (auto simp: decode_low_surrogate_def split: list.splits option.splits if_splits
      dest!: decode_u4_length)

lemma decode_escape_length: "decode_escape s = Some (u, r) \<Longrightarrow> length r < length s"
  by (auto simp: decode_escape_def split: list.splits option.splits if_splits
      dest!: decode_u4_length decode_low_surrogate_length)

definition cons_result :: "nat \<Rightarrow> (nat list \<times> string) option \<Rightarrow> (nat list \<times> string) option" where
  "cons_result x r = (case r of None \<Rightarrow> None | Some (xs, rest) \<Rightarrow> Some (x # xs, rest))"

text \<open>
  The text after an opening quote, up to the closing quote: the decoded string and what
  follows it. A control character (below 32) inside a string is an error.
\<close>

function scanstring :: "string \<Rightarrow> (nat list \<times> string) option" where
  "scanstring [] = None"
| "scanstring (c # cs) =
     (if c = CHR 0x22 then Some ([], cs)
      else if c = CHR 0x5C then
        (case decode_escape cs of
           None \<Rightarrow> None
         | Some (x, r) \<Rightarrow> cons_result x (scanstring r))
      else if (of_char c :: nat) < 32 then None
      else cons_result (of_char c) (scanstring cs))"
  by pat_completeness auto
termination
  by (relation "measure length") (auto dest: decode_escape_length)

lemma scanstring_length: "scanstring s = Some (xs, r) \<Longrightarrow> length r < length s"
proof (induction s arbitrary: xs r rule: scanstring.induct)
  case 1
  then show ?case by simp
next
  case (2 c cs)
  then show ?case
    by (fastforce simp: cons_result_def split: if_splits option.splits dest: decode_escape_length)
qed

subsection \<open>Numbers\<close>

definition digit_val :: "char \<Rightarrow> nat" where
  "digit_val c = of_char c - 48"

definition digits_val :: "string \<Rightarrow> nat" where
  "digits_val ds = foldl (\<lambda>a c. 10 * a + digit_val c) 0 ds"

text \<open>The integer part \<^verbatim>\<open>0|[1-9]\d*\<close>, the fraction \<^verbatim>\<open>\.\d+\<close>, the exponent \<^verbatim>\<open>[eE][-+]?\d+\<close>.\<close>

definition int_part :: "string \<Rightarrow> (string \<times> string) option" where
  "int_part s =
     (case s of
        [] \<Rightarrow> None
      | c # cs \<Rightarrow>
          if c = CHR ''0'' then Some ([c], cs)
          else if is_digit c then Some (c # takeWhile is_digit cs, dropWhile is_digit cs)
          else None)"

definition frac_part :: "string \<Rightarrow> (string \<times> string) option" where
  "frac_part s =
     (case s of
        p # d # r \<Rightarrow>
          if p = CHR ''.'' \<and> is_digit d then Some (d # takeWhile is_digit r, dropWhile is_digit r)
          else None
      | _ \<Rightarrow> None)"

definition exp_digits :: "string \<Rightarrow> (string \<times> string) option" where
  "exp_digits s =
     (case s of
        [] \<Rightarrow> None
      | d # r \<Rightarrow> if is_digit d then Some (d # takeWhile is_digit r, dropWhile is_digit r) else None)"

definition exp_part :: "string \<Rightarrow> (int \<times> string) option" where
  "exp_part s =
     (case s of
        [] \<Rightarrow> None
      | e # r \<Rightarrow>
          if e = CHR ''e'' \<or> e = CHR ''E'' then
            (case r of
               [] \<Rightarrow> None
             | sg # r' \<Rightarrow>
                 if sg = CHR ''-'' then
                   (case exp_digits r' of None \<Rightarrow> None
                    | Some (ds, rest) \<Rightarrow> Some (- int (digits_val ds), rest))
                 else if sg = CHR ''+'' then
                   (case exp_digits r' of None \<Rightarrow> None
                    | Some (ds, rest) \<Rightarrow> Some (int (digits_val ds), rest))
                 else
                   (case exp_digits r of None \<Rightarrow> None
                    | Some (ds, rest) \<Rightarrow> Some (int (digits_val ds), rest)))
          else None)"

definition pow10 :: "int \<Rightarrow> rat" where
  "pow10 e = (if 0 \<le> e then 10 ^ nat e else 1 / 10 ^ nat (- e))"

text \<open>
  A number literal at the start of the text, \<^verbatim>\<open>-?(0|[1-9]\d*)(\.\d+)?([eE][-+]?\d+)?\<close>,
  with its exact value.
\<close>

definition match_number :: "string \<Rightarrow> (pynum \<times> string) option" where
  "match_number s =
     (let (neg, s1) = (case s of [] \<Rightarrow> (False, s)
                       | c # cs \<Rightarrow> if c = CHR ''-'' then (True, cs) else (False, s))
      in case int_part s1 of
           None \<Rightarrow> None
         | Some (ip, r1) \<Rightarrow>
             (let (fr, r2) = (case frac_part r1 of None \<Rightarrow> ([], r1) | Some (ds, r) \<Rightarrow> (ds, r));
                  (ex, r3) = (case exp_part r2 of None \<Rightarrow> (0, r2) | Some (e, r) \<Rightarrow> (e, r));
                  m = (of_nat (digits_val ip) + of_nat (digits_val fr) / 10 ^ length fr) * pow10 ex
              in Some (Fin (if neg then - m else m), r3)))"

subsection \<open>Values\<close>

definition starts_with :: "string \<Rightarrow> string \<Rightarrow> bool" where
  "starts_with p s = (take (length p) s = p)"

text \<open>A value that is neither a string, an object nor an array: a named constant or a number.\<close>

definition scan_atom :: "string \<Rightarrow> (json \<times> string) option" where
  "scan_atom s =
     (if starts_with ''null'' s then Some (JNull, drop 4 s)
      else if starts_with ''true'' s then Some (JBool True, drop 4 s)
      else if starts_with ''false'' s then Some (JBool False, drop 5 s)
      else if starts_with ''NaN'' s then Some (JNum NaN, drop 3 s)
      else if starts_with ''Infinity'' s then Some (JNum PInf, drop 8 s)
      else if starts_with ''-Infinity'' s then Some (JNum NInf, drop 9 s)
      else (case match_number s of None \<Rightarrow> None | Some (n, r) \<Rightarrow> Some (JNum n, r)))"

lemma length_skip_ws: "length (skip_ws s) \<le> length s"
  by (simp add: skip_ws_def length_dropWhile_le)

lemma skip_ws_Cons_length: "skip_ws r = d # ds \<Longrightarrow> length ds < length r"
  using length_skip_ws [of r] by simp

lemma skip_ws_skip_ws_length: "skip_ws r = d # ds \<Longrightarrow> length (skip_ws ds) < length r"
  using length_skip_ws [of r] length_skip_ws [of ds] by simp

text \<open>
  The recursive descent of the decoder, in three modes: a value; the elements of an
  array from an element on, with those read so far; the members of an object from a key
  on. \<open>None\<close> is \<open>JSONDecodeError\<close>. Each recursive call after a value works on what the
  value left, which is shorter (\<open>parse_consumes\<close> below): the tests on the lengths never
  fail, they only make the recursion evidently terminating.
\<close>

datatype pmode = PValue | PElems "json list" | PMembers "(nat list \<times> json) list"

function parse :: "pmode \<Rightarrow> string \<Rightarrow> (json \<times> string) option" where
  "parse PValue s =
     (case s of
        [] \<Rightarrow> None
      | c # cs \<Rightarrow>
          if c = CHR 0x22 then
            (case scanstring cs of None \<Rightarrow> None | Some (str, r) \<Rightarrow> Some (JStr str, r))
          else if c = CHR ''{'' then
            (case skip_ws cs of
               [] \<Rightarrow> None
             | d # ds \<Rightarrow> if d = CHR ''}'' then Some (JObj [], ds) else parse (PMembers []) (d # ds))
          else if c = CHR ''['' then
            (case skip_ws cs of
               [] \<Rightarrow> None
             | d # ds \<Rightarrow> if d = CHR '']'' then Some (JArr [], ds) else parse (PElems []) (d # ds))
          else scan_atom s)"
| "parse (PElems acc) s =
     (case parse PValue s of
        None \<Rightarrow> None
      | Some (v, r) \<Rightarrow>
          if length r < length s then
            (case skip_ws r of
               [] \<Rightarrow> None
             | d # ds \<Rightarrow>
                 if d = CHR '']'' then Some (JArr (acc @ [v]), ds)
                 else if d = CHR '','' then parse (PElems (acc @ [v])) (skip_ws ds)
                 else None)
          else None)"
| "parse (PMembers acc) s =
     (case s of
        [] \<Rightarrow> None
      | q # cs \<Rightarrow>
          if q = CHR 0x22 then
            (case scanstring cs of
               None \<Rightarrow> None
             | Some (key, r) \<Rightarrow>
                 (case skip_ws r of
                    [] \<Rightarrow> None
                  | c # r1 \<Rightarrow>
                      if c = CHR '':'' then
                        (case parse PValue (skip_ws r1) of
                           None \<Rightarrow> None
                         | Some (v, r2) \<Rightarrow>
                             if length r2 < length s then
                               (case skip_ws r2 of
                                  [] \<Rightarrow> None
                                | d # ds \<Rightarrow>
                                    if d = CHR ''}'' then Some (JObj (dict_set acc key v), ds)
                                    else if d = CHR '','' then
                                      parse (PMembers (dict_set acc key v)) (skip_ws ds)
                                    else None)
                             else None)
                      else None))
          else None)"
  by pat_completeness auto
termination
proof (relation "measure (\<lambda>(m, s). 2 * length s + (case m of PValue \<Rightarrow> 0 | _ \<Rightarrow> 1))",
    goal_cases)
  case 1
  then show ?case by simp
next
  case (2 s c cs d ds)
  then show ?case using skip_ws_Cons_length [of cs d ds] by simp
next
  case (3 s c cs d ds)
  then show ?case using skip_ws_Cons_length [of cs d ds] by simp
next
  case (4 acc s)
  then show ?case by simp
next
  case (5 acc s x v r d ds)
  then show ?case using skip_ws_skip_ws_length [of r d ds] by simp
next
  case (6 acc s q cs x key r c r1)
  then show ?case
    using scanstring_length [of cs key r] skip_ws_Cons_length [of r c r1] length_skip_ws [of r1]
    by simp
next
  case (7 acc s q cs x key r c r1 x2 v r2 d ds)
  then show ?case using skip_ws_skip_ws_length [of r2 d ds] by simp
qed

subsection \<open>Every value consumes text\<close>

lemma int_part_length: "int_part s = Some (ds, r) \<Longrightarrow> length r < length s"
  by (auto simp: int_part_def split: list.splits if_splits)
     (metis length_dropWhile_le less_Suc_eq_le)

lemma frac_part_length: "frac_part s = Some (ds, r) \<Longrightarrow> length r < length s"
  by (auto simp: frac_part_def split: list.splits if_splits)
     (metis length_dropWhile_le less_Suc_eq_le less_SucI)

lemma exp_digits_length: "exp_digits s = Some (ds, r) \<Longrightarrow> length r < length s"
  by (auto simp: exp_digits_def split: list.splits if_splits)
     (metis length_dropWhile_le less_Suc_eq_le)

lemma exp_part_length: "exp_part s = Some (e, r) \<Longrightarrow> length r < length s"
  by (auto simp: exp_part_def split: list.splits if_splits option.splits
      dest!: exp_digits_length)

lemma match_number_length: "match_number s = Some (n, r) \<Longrightarrow> length r < length s"
proof -
  assume a: "match_number s = Some (n, r)"
  obtain neg s1 where ns: "(neg, s1) = (case s of [] \<Rightarrow> (False, s)
                       | c # cs \<Rightarrow> if c = CHR ''-'' then (True, cs) else (False, s))"
    by (metis surj_pair)
  then have s1: "length s1 \<le> length s" by (auto split: list.splits if_splits)
  from a ns obtain ip r1 where ip: "int_part s1 = Some (ip, r1)"
    by (auto simp: match_number_def Let_def split: option.splits prod.splits list.splits if_splits)
  then have r1: "length r1 < length s1" by (rule int_part_length)
  obtain fr r2 where fr: "(fr, r2) = (case frac_part r1 of None \<Rightarrow> ([], r1) | Some (ds, r) \<Rightarrow> (ds, r))"
    by (metis surj_pair)
  then have r2: "length r2 \<le> length r1"
    by (auto split: option.splits dest!: frac_part_length)
  obtain ex r3 where ex: "(ex, r3) = (case exp_part r2 of None \<Rightarrow> (0, r2) | Some (e, r) \<Rightarrow> (e, r))"
    by (metis surj_pair)
  then have r3: "length r3 \<le> length r2"
    by (auto split: option.splits dest!: exp_part_length)
  have "r = r3"
    using a ns [symmetric] ip fr [symmetric] ex [symmetric]
    by (simp add: match_number_def Let_def)
  then show ?thesis using s1 r1 r2 r3 by simp
qed

lemma starts_with_drop_length:
  "starts_with p s \<Longrightarrow> p \<noteq> [] \<Longrightarrow> length (drop (length p) s) < length s"
  by (cases s; cases p) (auto simp: starts_with_def)

lemma scan_atom_length: "scan_atom s = Some (v, r) \<Longrightarrow> length r < length s"
  using starts_with_drop_length [of "''null''" s] starts_with_drop_length [of "''true''" s]
    starts_with_drop_length [of "''false''" s] starts_with_drop_length [of "''NaN''" s]
    starts_with_drop_length [of "''Infinity''" s] starts_with_drop_length [of "''-Infinity''" s]
  by (auto simp: scan_atom_def split: if_splits option.splits dest: match_number_length)

lemma parse_consumes: "parse m s = Some (v, r) \<Longrightarrow> length r < length s"
proof (induction m s arbitrary: v r rule: parse.induct)
  case (1 s)
  then obtain c cs where s: "s = c # cs" by (cases s) auto
  show ?case
  proof (cases "c = CHR 0x22")
    case True
    then obtain str where "scanstring cs = Some (str, r)"
      using "1.prems" s by (auto split: option.splits)
    then show ?thesis using scanstring_length s by fastforce
  next
    case nq: False
    show ?thesis
    proof (cases "c = CHR ''{''")
      case True
      then obtain d ds where d: "skip_ws cs = d # ds"
        using "1.prems" s by (cases "skip_ws cs") auto
      have lds: "length ds < length cs" using d by (rule skip_ws_Cons_length)
      show ?thesis
      proof (cases "d = CHR ''}''")
        case True
        then have "r = ds" using "1.prems" s nq \<open>c = CHR ''{''\<close> d by simp
        then show ?thesis using lds s by simp
      next
        case False
        then have p: "parse (PMembers []) (d # ds) = Some (v, r)"
          using "1.prems" s nq \<open>c = CHR ''{''\<close> d by simp
        have "length r < length (d # ds)"
          using "1.IH"(1) [OF s nq \<open>c = CHR ''{''\<close> d False p] .
        then show ?thesis using lds s by simp
      qed
    next
      case nb: False
      show ?thesis
      proof (cases "c = CHR ''[''")
        case True
        then obtain d ds where d: "skip_ws cs = d # ds"
          using "1.prems" s nq nb by (cases "skip_ws cs") auto
        have lds: "length ds < length cs" using d by (rule skip_ws_Cons_length)
        show ?thesis
        proof (cases "d = CHR '']''")
          case True
          then have "r = ds" using "1.prems" s nq nb \<open>c = CHR ''[''\<close> d by simp
          then show ?thesis using lds s by simp
        next
          case False
          then have p: "parse (PElems []) (d # ds) = Some (v, r)"
            using "1.prems" s nq nb \<open>c = CHR ''[''\<close> d by simp
          have "length r < length (d # ds)"
            using "1.IH"(2) [OF s nq nb \<open>c = CHR ''[''\<close> d False p] .
          then show ?thesis using lds s by simp
        qed
      next
        case False
        then have "scan_atom s = Some (v, r)" using "1.prems" s nq nb by simp
        then show ?thesis by (rule scan_atom_length)
      qed
    qed
  qed
next
  case (2 acc s)
  from "2.prems" obtain v1 r1 where p: "parse PValue s = Some (v1, r1)"
    by (auto split: option.splits)
  from "2.prems" p have l1: "length r1 < length s" by (auto split: if_splits)
  from "2.prems" p l1 obtain d ds where d: "skip_ws r1 = d # ds"
    by (cases "skip_ws r1") auto
  have lds: "length ds < length r1" using d by (rule skip_ws_Cons_length)
  show ?case
  proof (cases "d = CHR '']''")
    case True
    then have "r = ds" using "2.prems" p l1 d by simp
    then show ?thesis using lds l1 by simp
  next
    case nc: False
    then have c: "d = CHR '',''" using "2.prems" p l1 d by (auto split: if_splits)
    then have q: "parse (PElems (acc @ [v1])) (skip_ws ds) = Some (v, r)"
      using "2.prems" p l1 d nc by simp
    have "length r < length (skip_ws ds)"
      using "2.IH"(2) [OF p refl l1 d nc c q] .
    then show ?thesis using lds l1 length_skip_ws [of ds] by simp
  qed
next
  case (3 acc s)
  from "3.prems" obtain q cs where s: "s = q # cs" by (cases s) auto
  from "3.prems" s have qq: "q = CHR 0x22" by (auto split: if_splits)
  from "3.prems" s qq obtain key r0 where k: "scanstring cs = Some (key, r0)"
    by (auto split: option.splits)
  from "3.prems" s qq k obtain c r1 where c: "skip_ws r0 = c # r1"
    by (cases "skip_ws r0") auto
  from "3.prems" s qq k c have cc: "c = CHR '':''" by (auto split: if_splits)
  from "3.prems" s qq k c cc obtain v1 r2 where p: "parse PValue (skip_ws r1) = Some (v1, r2)"
    by (auto split: option.splits)
  from "3.prems" s qq k c cc p have l2: "length r2 < length s" by (auto split: if_splits)
  from "3.prems" s qq k c cc p l2 obtain d ds where d: "skip_ws r2 = d # ds"
    by (cases "skip_ws r2") auto
  have lds: "length ds < length r2" using d by (rule skip_ws_Cons_length)
  show ?case
  proof (cases "d = CHR ''}''")
    case True
    then have "r = ds" using "3.prems" s qq k c cc p l2 d by simp
    then show ?thesis using lds l2 by simp
  next
    case nc: False
    then have dc: "d = CHR '',''" using "3.prems" s qq k c cc p l2 d by (auto split: if_splits)
    then have q2: "parse (PMembers (dict_set acc key v1)) (skip_ws ds) = Some (v, r)"
      using "3.prems" s qq k c cc p l2 d nc by simp
    have "length r < length (skip_ws ds)"
      using "3.IH"(2) [OF s qq k refl c cc p refl l2 d nc dc q2] .
    then show ?thesis using lds l2 length_skip_ws [of ds] by simp
  qed
qed


text \<open>So the tests on the lengths in \<open>parse\<close> are never decisive.\<close>

lemma parse_elems_unguarded:
  "parse (PElems acc) s =
     (case parse PValue s of
        None \<Rightarrow> None
      | Some (v, r) \<Rightarrow>
          (case skip_ws r of
             [] \<Rightarrow> None
           | d # ds \<Rightarrow>
               if d = CHR '']'' then Some (JArr (acc @ [v]), ds)
               else if d = CHR '','' then parse (PElems (acc @ [v])) (skip_ws ds)
               else None))"
proof (cases "parse PValue s")
  case None
  then show ?thesis by (subst parse.simps(2)) (simp del: parse.simps)
next
  case (Some a)
  obtain v r where a: "a = (v, r)" by (cases a)
  have "length r < length s" using Some a parse_consumes by blast
  then show ?thesis using Some a by (subst parse.simps(2)) (simp del: parse.simps)
qed

lemma parse_members_unguarded:
  "parse (PMembers acc) (CHR 0x22 # cs) =
     (case scanstring cs of
        None \<Rightarrow> None
      | Some (key, r) \<Rightarrow>
          (case skip_ws r of
             [] \<Rightarrow> None
           | c # r1 \<Rightarrow>
               if c = CHR '':'' then
                 (case parse PValue (skip_ws r1) of
                    None \<Rightarrow> None
                  | Some (v, r2) \<Rightarrow>
                      (case skip_ws r2 of
                         [] \<Rightarrow> None
                       | d # ds \<Rightarrow>
                           if d = CHR ''}'' then Some (JObj (dict_set acc key v), ds)
                           else if d = CHR '','' then
                             parse (PMembers (dict_set acc key v)) (skip_ws ds)
                           else None))
               else None))"
proof -
  have "length r2 < length (CHR 0x22 # cs)"
    if "scanstring cs = Some (key, r)" "skip_ws r = c # r1" "parse PValue (skip_ws r1) = Some (v, r2)"
    for key r c r1 v r2
    using that scanstring_length [of cs key r] skip_ws_Cons_length [of r c r1]
      length_skip_ws [of r1] parse_consumes [of PValue "skip_ws r1" v r2]
    by simp
  then show ?thesis
    by (subst parse.simps(3)) (simp del: parse.simps split: option.splits list.splits)
qed

text \<open>
  \<open>json.loads\<close>: white space, one value, white space, the end of the text; anything
  else is a \<open>JSONDecodeError\<close>.
\<close>

definition json_loads :: "string \<Rightarrow> json option" where
  "json_loads s =
     (case parse PValue (skip_ws s) of
        None \<Rightarrow> None
      | Some (v, r) \<Rightarrow> if skip_ws r = [] then Some v else None)"

section \<open>The extraction of boxes from an answer\<close>

text \<open>
  \<open>extract_bbox_data\<close> of the converter script and \<open>ChatbotDialog._extract_bbox_data\<close>
  are the same text. An item is kept when it is a dictionary with both keys
  \<open>bbox_2d\<close> and \<open>label\<close>.
\<close>

definition has_key :: "string \<Rightarrow> (nat list \<times> json) list \<Rightarrow> bool" where
  "has_key k d = (ustr k \<in> fst ` set d)"

fun is_detection :: "json \<Rightarrow> bool" where
  "is_detection (JObj d) = (has_key ''bbox_2d'' d \<and> has_key ''label'' d)"
| "is_detection _ = False"

text \<open>What one decoded value adds to \<open>bbox_data\<close>.\<close>

fun collect :: "json \<Rightarrow> json list" where
  "collect (JArr items) = filter is_detection items"
| "collect (JObj d) = (if is_detection (JObj d) then [JObj d] else [])"
| "collect _ = []"

text \<open>Method 1: the whole content as one JSON value.\<close>

definition parse_whole :: "string \<Rightarrow> json list" where
  "parse_whole assistant_content =
     (case json_loads assistant_content of Some data \<Rightarrow> collect data | None \<Rightarrow> [])"

text \<open>
  The loop over the code blocks: the first block that decodes ends the loop, whatever it
  adds.
\<close>

fun first_valid :: "string list \<Rightarrow> json option" where
  "first_valid [] = None"
| "first_valid (block # blocks) =
     (case json_loads block of Some data \<Rightarrow> Some data | None \<Rightarrow> first_valid blocks)"

definition code_blocks :: "string \<Rightarrow> string list" where
  "code_blocks s = map (rx_group 1) (findall code_block_pattern s)"

text \<open>Method 2: the fenced code blocks.\<close>

definition scan_code_blocks :: "string \<Rightarrow> json list" where
  "scan_code_blocks s =
     (case first_valid (code_blocks s) of Some data \<Rightarrow> collect data | None \<Rightarrow> [])"

text \<open>
  Method 3: the loop over the \<open><answer>\<close> bodies. A body that decodes ends the loop;
  one that does not is searched for code blocks, and ends the loop when they added
  something.
\<close>

fun scan_answers :: "string list \<Rightarrow> json list" where
  "scan_answers [] = []"
| "scan_answers (m # ms) =
     (case json_loads m of
        Some data \<Rightarrow> collect data
      | None \<Rightarrow> (let bbox_data = scan_code_blocks m
                 in if bbox_data \<noteq> [] then bbox_data else scan_answers ms))"

text \<open>\<open>len(coords)\<close>: a \<open>TypeError\<close> for a value without a length.\<close>

fun py_len :: "json \<Rightarrow> py_error + nat" where
  "py_len (JArr xs) = Inr (length xs)"
| "py_len (JObj d) = Inr (length d)"
| "py_len (JStr s) = Inr (length s)"
| "py_len _ = Inl TypeError"

text \<open>\<open>float(c)\<close> for a match \<open>c\<close> of the coordinate pattern (digits, optionally a fraction).\<close>

definition py_float :: "string \<Rightarrow> json" where
  "py_float c =
     (let ip = takeWhile is_digit c; fr = drop 1 (dropWhile is_digit c)
      in JNum (Fin (of_nat (digits_val ip) + of_nat (digits_val fr) / 10 ^ length fr)))"

definition detection :: "json \<Rightarrow> json \<Rightarrow> json" where
  "detection lbl coords = JObj [(ustr ''label'', lbl), (ustr ''bbox_2d'', coords)]"

text \<open>
  Method 4: the loop over the matches of the \<open>bbox2d\<close> pattern, with \<open>bbox_data\<close> as it
  grows.
\<close>

fun scan_bbox2d :: "json list \<Rightarrow> rx_state list \<Rightarrow> py_error + json list" where
  "scan_bbox2d bbox_data [] = Inr bbox_data"
| "scan_bbox2d bbox_data (m # ms) =
     (let lbl = rx_group 1 m; coords_str = rx_group 2 m
      in case json_loads (''['' @ coords_str @ '']'') of
           Some coords \<Rightarrow>
             (case py_len coords of
                Inl e \<Rightarrow> Inl e
              | Inr n \<Rightarrow>
                  scan_bbox2d (if n = 4 then bbox_data @ [detection (JStr (ustr lbl)) coords]
                               else bbox_data) ms)
         | None \<Rightarrow>
             (let coord_matches = map (rx_group 1) (findall coord_pattern coords_str)
              in scan_bbox2d
                   (if length coord_matches = 4
                    then bbox_data @ [detection (JStr (ustr lbl)) (JArr (map py_float coord_matches))]
                    else bbox_data) ms))"

definition extract_bbox_data :: "string \<Rightarrow> py_error + json list" where
  "extract_bbox_data assistant_content =
     (let bbox_data = parse_whole assistant_content;
          bbox_data = (if bbox_data = [] then scan_code_blocks assistant_content else bbox_data);
          bbox_data = (if bbox_data = []
                       then scan_answers (map (rx_group 1) (findall answer_pattern assistant_content))
                       else bbox_data)
      in if bbox_data = [] then scan_bbox2d [] (findall bbox2d_pattern assistant_content)
         else Inr bbox_data)"

lemmas rx_eval = findall.simps code_block_pattern_def answer_pattern_def bbox2d_pattern_def coord_pattern_def
  lit_def is_word_def is_space_def any_char_def label_char_def not_newline_def
  rx_group_def

lemmas json_eval = json_loads_def skip_ws_def json_ws_def scan_atom_def starts_with_def
  match_number_def int_part_def frac_part_def exp_part_def exp_digits_def
  digits_val_def digit_val_def is_digit_def pow10_def cons_result_def ustr_def

lemmas extract_eval = extract_bbox_data_def parse_whole_def scan_code_blocks_def
  code_blocks_def has_key_def detection_def py_float_def


section \<open>Properties of the extraction\<close>

text \<open>
  The JSON text of the specification's example, the record it denotes, and a text that
  holds it in a fenced code block: prose, the opening fence with a language tag and white
  space, the JSON text, white space and the closing fence, more prose.
\<close>

definition cat_json :: string where
  "cat_json = ''{\"label\":\"cat\",\"bbox_2d\":[10,20,30,40]}''"

definition cat_box :: json where
  "cat_box = detection (JStr (ustr ''cat''))
               (JArr [JNum (Fin 10), JNum (Fin 20), JNum (Fin 30), JNum (Fin 40)])"

definition fenced :: "string \<Rightarrow> string \<Rightarrow> string \<Rightarrow> string \<Rightarrow> string \<Rightarrow> string" where
  "fenced pre tag ws1 ws2 post = pre @ ''```'' @ tag @ ws1 @ cat_json @ ws2 @ ''```'' @ post"

text \<open>\<open>occurs_in p s\<close>: the text \<open>p\<close> occurs somewhere in \<open>s\<close>.\<close>

fun occurs_in :: "string \<Rightarrow> string \<Rightarrow> bool" where
  "occurs_in p [] = (p = [])"
| "occurs_in p (c # cs) = (starts_with p (c # cs) \<or> occurs_in p cs)"

subsection \<open>The matcher\<close>

lemma rx_match_lit:
  "rx_match (lit p @ k) s st = (if starts_with p s then rx_match k (drop (length p) s) st else None)"
proof (induction p arbitrary: s)
  case Nil
  then show ?case by (simp add: lit_def starts_with_def)
next
  case (Cons a p)
  have IH: "\<And>s. rx_match (lit p @ k) s st =
      (if starts_with p s then rx_match k (drop (length p) s) st else None)"
    using Cons.IH .
  show ?case
  proof (cases s)
    case Nil
    then show ?thesis by (simp add: lit_def starts_with_def)
  next
    case (Cons c cs)
    have "rx_match (lit (a # p) @ k) (c # cs) st = (if c = a then rx_match (lit p @ k) cs st else None)"
      by (simp add: lit_def)
    then show ?thesis using IH [of cs] Cons by (auto simp: starts_with_def)
  qed
qed

lemma space_not_word: "is_space c \<Longrightarrow> \<not> is_word c"
  by (auto simp: is_space_def is_word_def Let_def)

lemma star_greedy:
  assumes "\<forall>c\<in>set w. p c" and "t = [] \<or> \<not> p (hd t)" and "rx_match k t st = Some r"
  shows "rx_match (Star p # k) (w @ t) st = Some r"
  using assms
proof (induction w)
  case Nil
  then show ?case by (cases t) auto
next
  case (Cons c w)
  then show ?case by simp
qed

lemma lazy_skip:
  assumes "\<forall>c\<in>set j. p c" and "\<forall>i<length j. rx_match k (drop i j @ t) st = None"
  shows "rx_match (LazyStar p # k) (j @ t) st = rx_match (LazyStar p # k) t st"
  using assms
proof (induction j)
  case Nil
  then show ?case by simp
next
  case (Cons c j)
  have h0: "rx_match k ((c # j) @ t) st = None"
    using Cons.prems(2) by (metis drop0 length_greater_0_conv list.distinct(1))
  have hi: "\<forall>i<length j. rx_match k (drop i j @ t) st = None"
  proof (intro allI impI)
    fix i assume "i < length j"
    then have "Suc i < length (c # j)" by simp
    from Cons.prems(2) [rule_format, OF this] show "rx_match k (drop i j @ t) st = None" by simp
  qed
  have pc: "p c" and pj: "\<forall>c\<in>set j. p c" using Cons.prems(1) by auto
  show ?case using h0 pc Cons.IH [OF pj hi] by simp
qed


lemma opt_word_tag:
  assumes "\<forall>c\<in>set tag. is_word c" and "t = [] \<or> \<not> is_word (hd t)"
    and "rx_match k t st = Some r"
  shows "rx_match (Opt [Chr is_word, Star is_word] # k) (tag @ t) st = Some r"
proof (cases tag)
  case Nil
  have "rx_match ([Chr is_word, Star is_word] @ k) t st = None"
    using assms(2) by (cases t) auto
  then show ?thesis using Nil assms(3) by simp
next
  case (Cons c tg)
  have "rx_match (Star is_word # k) (tg @ t) st = Some r"
    using assms Cons by (intro star_greedy) auto
  then show ?thesis using Cons assms(1) by simp
qed

lemma close_group_fails:
  assumes "\<not> is_space c" and "c \<noteq> CHR 0x60"
  shows "rx_match ([GClose n, Star is_space] @ lit ''```'' @ k) (c # s) st = None"
  using assms by (cases st) (simp add: lit_def)

lemma close_group_succeeds:
  assumes "\<forall>c\<in>set ws2. is_space c"
  shows "rx_match ([GClose 1, Star is_space] @ lit ''```'') (ws2 @ ''```'' @ post) ([(1, j @ ws2 @ ''```'' @ post)], [])
         = Some (post, ([(1, j @ ws2 @ ''```'' @ post)], [(1, j)]))"
proof -
  have "rx_match (lit ''```'' @ []) (''```'' @ post) ([(1, j @ ws2 @ ''```'' @ post)], [(1, j)])
        = Some (post, ([(1, j @ ws2 @ ''```'' @ post)], [(1, j)]))"
    by (simp add: lit_def)
  then have "rx_match (Star is_space # lit ''```'') (ws2 @ ''```'' @ post) ([(1, j @ ws2 @ ''```'' @ post)], [(1, j)])
        = Some (post, ([(1, j @ ws2 @ ''```'' @ post)], [(1, j)]))"
    using assms by (intro star_greedy) (auto simp: is_space_def)
  then show ?thesis by simp
qed

lemma match_fence:
  assumes tag: "\<forall>c\<in>set tag. is_word c"
    and ws1: "\<forall>c\<in>set ws1. is_space c"
    and ws2: "\<forall>c\<in>set ws2. is_space c"
    and j: "j \<noteq> []" "\<not> is_word (hd j)" "\<forall>c\<in>set j. \<not> is_space c \<and> c \<noteq> CHR 0x60"
  shows "rx_match code_block_pattern (''```'' @ tag @ ws1 @ j @ ws2 @ ''```'' @ post) ([], [])
         = Some (post, ([(1, j @ ws2 @ ''```'' @ post)], [(1, j)]))"
proof -
  let ?T = "ws2 @ ''```'' @ post"
  let ?st = "([(1, j @ ?T)], []) :: rx_state"
  let ?k3 = "[GClose 1, Star is_space] @ lit ''```''"
  let ?res = "Some (post, ([(1, j @ ?T)], [(1, j)]))"
  have skip: "rx_match (LazyStar any_char # ?k3) (j @ ?T) ?st = rx_match (LazyStar any_char # ?k3) ?T ?st"
  proof (rule lazy_skip)
    show "\<forall>c\<in>set j. any_char c" by (simp add: any_char_def)
    show "\<forall>i<length j. rx_match ?k3 (drop i j @ ?T) ?st = None"
    proof (intro allI impI)
      fix i assume i: "i < length j"
      then obtain c cs where d: "drop i j = c # cs" by (cases "drop i j") auto
      then have "c \<in> set j" by (metis in_set_dropD list.set_intros(1))
      then have "\<not> is_space c" "c \<noteq> CHR 0x60" using j(3) by auto
      then show "rx_match ?k3 (drop i j @ ?T) ?st = None"
        using close_group_fails [of c 1 "[]" "cs @ ?T" ?st] d by simp
    qed
  qed
  have "rx_match ?k3 ?T ?st = ?res"
    using close_group_succeeds [OF ws2, of post j] by simp
  then have lazy: "rx_match (LazyStar any_char # ?k3) (j @ ?T) ?st = ?res"
    using skip by simp
  then have grp: "rx_match (GOpen 1 # LazyStar any_char # ?k3) (j @ ?T) ([], []) = ?res"
    by simp
  have hdj: "\<not> is_space (hd j)" using j(1,3) by (cases j) auto
  have sp: "rx_match (Star is_space # GOpen 1 # LazyStar any_char # ?k3) (ws1 @ j @ ?T) ([], []) = ?res"
    using ws1 j(1) hdj grp by (intro star_greedy) auto
  have hd1: "ws1 @ j @ ?T = [] \<or> \<not> is_word (hd (ws1 @ j @ ?T))"
  proof (cases ws1)
    case Nil
    then show ?thesis using j(1,2) by (cases j) auto
  next
    case (Cons c w)
    then show ?thesis using ws1 space_not_word by auto
  qed
  have "rx_match (Opt [Chr is_word, Star is_word] # Star is_space # GOpen 1 # LazyStar any_char # ?k3)
          (tag @ ws1 @ j @ ?T) ([], []) = ?res"
    using tag hd1 sp by (rule opt_word_tag)
  then show ?thesis
    by (simp add: code_block_pattern_def rx_match_lit [of "''```''", simplified] starts_with_def lit_def)
qed







subsection \<open>Fenced code blocks\<close>

lemma loads_cat: "json_loads cat_json = Some cat_box"
  by (simp add: cat_json_def cat_box_def detection_def json_eval)

lemma starts_fence_append:
  assumes "u \<noteq> []" and "starts_with ''```'' t"
  shows "starts_with ''```'' (u @ t) = starts_with ''```'' (u @ ''``'')"
proof -
  obtain a b c t' where t: "t = a # b # c # t'" and abc: "a = CHR 0x60" "b = CHR 0x60" "c = CHR 0x60"
    using assms(2) by (cases t; cases "tl t"; cases "tl (tl t)") (auto simp: starts_with_def)
  show ?thesis
  proof (cases u)
    case Nil
    then show ?thesis using assms(1) by simp
  next
    case (Cons x u1)
    then show ?thesis
      by (cases u1; cases "tl u1") (auto simp: starts_with_def t abc)
  qed
qed

lemma findall_skip_prose:
  assumes "\<not> occurs_in ''```'' (pre @ ''``'')" and "starts_with ''```'' t"
  shows "findall code_block_pattern (pre @ t) = findall code_block_pattern t"
  using assms
proof (induction pre)
  case Nil
  then show ?case by simp
next
  case (Cons c p)
  have nf: "\<not> starts_with ''```'' ((c # p) @ ''``'')" and np: "\<not> occurs_in ''```'' (p @ ''``'')"
    using Cons.prems(1) by auto
  have "\<not> starts_with ''```'' ((c # p) @ t)"
    using nf starts_fence_append [of "c # p" t] Cons.prems(2) by simp
  then have "rx_match code_block_pattern ((c # p) @ t) ([], []) = None"
    unfolding code_block_pattern_def append_assoc by (subst rx_match_lit) simp
  then have "findall code_block_pattern ((c # p) @ t) = findall code_block_pattern (p @ t)"
    by (subst findall.simps) simp
  then show ?case using Cons.IH [OF np Cons.prems(2)] by simp
qed

lemma cat_json_chars:
  "cat_json \<noteq> []" "\<not> is_word (hd cat_json)" "\<forall>c\<in>set cat_json. \<not> is_space c \<and> c \<noteq> CHR 0x60"
  by (simp_all add: cat_json_def is_word_def is_space_def)

lemma code_blocks_fenced:
  assumes "\<forall>c\<in>set tag. is_word c" and "\<forall>c\<in>set ws1. is_space c" and "\<forall>c\<in>set ws2. is_space c"
    and "\<not> occurs_in ''```'' (pre @ ''``'')"
  shows "\<exists>blocks. code_blocks (fenced pre tag ws1 ws2 post) = cat_json # blocks"
proof -
  let ?F = "''```'' @ tag @ ws1 @ cat_json @ ws2 @ ''```'' @ post"
  have m: "rx_match code_block_pattern ?F ([], [])
        = Some (post, ([(1, cat_json @ ws2 @ ''```'' @ post)], [(1, cat_json)]))"
    using assms(1-3) cat_json_chars by (intro match_fence) auto
  have "findall code_block_pattern (pre @ ?F) = findall code_block_pattern ?F"
    using assms(4) by (intro findall_skip_prose) (auto simp: starts_with_def)
  also have "\<dots> = ([(1, cat_json @ ws2 @ ''```'' @ post)], [(1, cat_json)]) # findall code_block_pattern post"
    using findall.simps [of code_block_pattern ?F] m by simp
  finally show ?thesis
    by (simp add: code_blocks_def fenced_def rx_group_def)
qed

lemma collect_cat: "collect cat_box = [cat_box]"
  by (simp add: cat_box_def detection_def has_key_def ustr_def)

lemma scan_code_blocks_fenced:
  assumes "\<forall>c\<in>set tag. is_word c" and "\<forall>c\<in>set ws1. is_space c" and "\<forall>c\<in>set ws2. is_space c"
    and "\<not> occurs_in ''```'' (pre @ ''``'')"
  shows "scan_code_blocks (fenced pre tag ws1 ws2 post) = [cat_box]"
proof -
  obtain blocks where "code_blocks (fenced pre tag ws1 ws2 post) = cat_json # blocks"
    using code_blocks_fenced [OF assms] by blast
  then show ?thesis
    by (simp add: scan_code_blocks_def loads_cat collect_cat)
qed

subsection \<open>The whole text of a fenced block is not JSON\<close>

text \<open>
  Read as one JSON value, a text with a fence never decodes when the fence is followed, after
  characters a string may hold, by a double quote and the letter \<open>l\<close>: the decoder can
  pass the backquotes only inside a string, that string ends at the double quote, and no
  value is followed by a letter. \<open>blocked F B s\<close>: the decoder stands before the fence
  \<open>F\<close> or at the letter, \<open>B\<close>.
\<close>

definition blocked :: "string \<Rightarrow> string \<Rightarrow> string \<Rightarrow> bool" where
  "blocked F B s = ((\<exists>u. s = u @ F) \<or> s = B)"

lemma cut_before:
  assumes "c @ r = u @ b # z" and "b \<notin> set c"
  shows "\<exists>u'. r = u' @ b # z"
proof -
  from assms(1) consider t where "c = u @ t" "t @ r = b # z" | t where "c @ t = u" "r = t @ b # z"
    by (auto simp: append_eq_append_conv2)
  then show ?thesis
  proof cases
    case 1
    show ?thesis
    proof (cases t)
      case Nil
      then show ?thesis using 1 by auto
    next
      case (Cons x t')
      then have "b \<in> set c" using 1 by auto
      then show ?thesis using assms(2) by simp
    qed
  next
    case 2
    then show ?thesis by blast
  qed
qed

lemma digit_not_backquote: "is_digit c \<Longrightarrow> c \<noteq> CHR 0x60"
  by (auto simp: is_digit_def)

lemma int_part_consumed:
  "int_part s = Some (ds, r) \<Longrightarrow> \<exists>c. s = c @ r \<and> CHR 0x60 \<notin> set c"
proof -
  assume a: "int_part s = Some (ds, r)"
  then obtain x xs where s: "s = x # xs" by (cases s) (auto simp: int_part_def)
  show ?thesis
  proof (cases "x = CHR ''0''")
    case True
    then have "r = xs" using a s by (simp add: int_part_def)
    then have "s = [x] @ r \<and> CHR 0x60 \<notin> set [x]" using s True by simp
    then show ?thesis by blast
  next
    case False
    then have d: "is_digit x" and r: "r = dropWhile is_digit xs"
      using a s by (auto simp: int_part_def split: if_splits)
    have "s = (x # takeWhile is_digit xs) @ r" using s r by simp
    moreover have "CHR 0x60 \<notin> set (x # takeWhile is_digit xs)"
      using d digit_not_backquote by (auto dest: set_takeWhileD)
    ultimately show ?thesis by blast
  qed
qed

lemma frac_part_consumed:
  "frac_part s = Some (ds, r) \<Longrightarrow> \<exists>c. s = c @ r \<and> CHR 0x60 \<notin> set c"
proof -
  assume a: "frac_part s = Some (ds, r)"
  then obtain p d xs where s: "s = p # d # xs"
    by (cases s; cases "tl s") (auto simp: frac_part_def)
  then have p: "p = CHR ''.''" and d: "is_digit d" and r: "r = dropWhile is_digit xs"
    using a by (auto simp: frac_part_def split: if_splits)
  have "s = (p # d # takeWhile is_digit xs) @ r" using s r by simp
  moreover have "CHR 0x60 \<notin> set (p # d # takeWhile is_digit xs)"
    using p d digit_not_backquote by (auto dest: set_takeWhileD)
  ultimately show ?thesis by blast
qed

lemma exp_digits_consumed:
  "exp_digits s = Some (ds, r) \<Longrightarrow> \<exists>c. s = c @ r \<and> CHR 0x60 \<notin> set c"
proof -
  assume a: "exp_digits s = Some (ds, r)"
  then obtain d xs where s: "s = d # xs" by (cases s) (auto simp: exp_digits_def)
  then have d: "is_digit d" and r: "r = dropWhile is_digit xs"
    using a by (auto simp: exp_digits_def split: if_splits)
  have "s = (d # takeWhile is_digit xs) @ r" using s r by simp
  moreover have "CHR 0x60 \<notin> set (d # takeWhile is_digit xs)"
    using d digit_not_backquote by (auto dest: set_takeWhileD)
  ultimately show ?thesis by blast
qed

lemma exp_part_consumed:
  "exp_part s = Some (e, r) \<Longrightarrow> \<exists>c. s = c @ r \<and> CHR 0x60 \<notin> set c"
proof -
  assume a: "exp_part s = Some (e, r)"
  then obtain x xs where s: "s = x # xs" by (cases s) (auto simp: exp_part_def)
  then have x: "x = CHR ''e'' \<or> x = CHR ''E''" using a by (auto simp: exp_part_def split: if_splits)
  then obtain sg r' where xs: "xs = sg # r'" using a s by (cases xs) (auto simp: exp_part_def)
  show ?thesis
  proof (cases "sg = CHR ''-'' \<or> sg = CHR ''+''")
    case True
    then obtain ds where "exp_digits r' = Some (ds, r)"
      using a s x xs by (auto simp: exp_part_def split: option.splits if_splits)
    then obtain c where c: "r' = c @ r" "CHR 0x60 \<notin> set c" using exp_digits_consumed by blast
    have "s = (x # sg # c) @ r" using s xs c by simp
    moreover have "CHR 0x60 \<notin> set (x # sg # c)" using x True c by auto
    ultimately show ?thesis by blast
  next
    case False
    then obtain ds where "exp_digits xs = Some (ds, r)"
      using a s x xs by (auto simp: exp_part_def split: option.splits if_splits)
    then obtain c where c: "xs = c @ r" "CHR 0x60 \<notin> set c" using exp_digits_consumed by blast
    have "s = (x # c) @ r" using s c by simp
    moreover have "CHR 0x60 \<notin> set (x # c)" using x c by auto
    ultimately show ?thesis by blast
  qed
qed

lemma match_number_consumed:
  "match_number s = Some (n, r) \<Longrightarrow> \<exists>c. s = c @ r \<and> CHR 0x60 \<notin> set c"
proof -
  assume a: "match_number s = Some (n, r)"
  obtain neg s1 where ns: "(neg, s1) = (case s of [] \<Rightarrow> (False, s)
                       | c # cs \<Rightarrow> if c = CHR ''-'' then (True, cs) else (False, s))"
    by (metis surj_pair)
  then obtain c0 where c0: "s = c0 @ s1" "CHR 0x60 \<notin> set c0"
  proof (cases s)
    case Nil
    then have "s = [] @ s1" using ns by simp
    then show ?thesis using that by force
  next
    case (Cons x xs)
    show ?thesis
    proof (cases "x = CHR ''-''")
      case True
      then have "s = [x] @ s1" "CHR 0x60 \<notin> set [x]" using ns Cons by auto
      then show ?thesis using that by blast
    next
      case False
      then have "s = [] @ s1" using ns Cons by simp
      then show ?thesis using that by force
    qed
  qed
  from a ns obtain ip r1 where ip: "int_part s1 = Some (ip, r1)"
    by (auto simp: match_number_def Let_def split: option.splits prod.splits list.splits if_splits)
  then obtain c1 where c1: "s1 = c1 @ r1" "CHR 0x60 \<notin> set c1" using int_part_consumed by blast
  obtain fr r2 where fr: "(fr, r2) = (case frac_part r1 of None \<Rightarrow> ([], r1) | Some (ds, r) \<Rightarrow> (ds, r))"
    by (metis surj_pair)
  obtain c2 where c2: "r1 = c2 @ r2" "CHR 0x60 \<notin> set c2"
  proof (cases "frac_part r1")
    case None
    then have "r1 = [] @ r2" using fr by simp
    then show ?thesis using that by force
  next
    case (Some p)
    then obtain ds where "frac_part r1 = Some (ds, r2)" using fr by (cases p) auto
    then show ?thesis using frac_part_consumed that by blast
  qed
  obtain ex r3 where ex: "(ex, r3) = (case exp_part r2 of None \<Rightarrow> (0, r2) | Some (e, r) \<Rightarrow> (e, r))"
    by (metis surj_pair)
  obtain c3 where c3: "r2 = c3 @ r3" "CHR 0x60 \<notin> set c3"
  proof (cases "exp_part r2")
    case None
    then have "r2 = [] @ r3" using ex by simp
    then show ?thesis using that by force
  next
    case (Some p)
    then obtain e where "exp_part r2 = Some (e, r3)" using ex by (cases p) auto
    then show ?thesis using exp_part_consumed that by blast
  qed
  have "r = r3"
    using a ns [symmetric] ip fr [symmetric] ex [symmetric]
    by (simp add: match_number_def Let_def)
  then have "s = (c0 @ c1 @ c2 @ c3) @ r" using c0 c1 c2 c3 by simp
  moreover have "CHR 0x60 \<notin> set (c0 @ c1 @ c2 @ c3)" using c0 c1 c2 c3 by simp
  ultimately show ?thesis by blast
qed

lemma starts_with_consumed:
  "starts_with p s \<Longrightarrow> s = p @ drop (length p) s"
  by (metis append_take_drop_id starts_with_def)

lemma scan_atom_consumed:
  "scan_atom s = Some (v, r) \<Longrightarrow> \<exists>c. s = c @ r \<and> c \<noteq> [] \<and> CHR 0x60 \<notin> set c"
proof -
  assume a: "scan_atom s = Some (v, r)"
  have lit: "\<exists>c. s = c @ drop n s \<and> c \<noteq> [] \<and> CHR 0x60 \<notin> set c"
    if "starts_with p s" "p \<noteq> []" "CHR 0x60 \<notin> set p" "length p = n" for p n
    using starts_with_consumed [OF that(1)] that(2,3,4) by blast
  consider "starts_with ''null'' s" "r = drop 4 s" | "starts_with ''true'' s" "r = drop 4 s"
    | "starts_with ''false'' s" "r = drop 5 s" | "starts_with ''NaN'' s" "r = drop 3 s"
    | "starts_with ''Infinity'' s" "r = drop 8 s" | "starts_with ''-Infinity'' s" "r = drop 9 s"
    | n where "match_number s = Some (n, r)"
    using a by (auto simp: scan_atom_def split: if_splits option.splits)
  then show ?thesis
  proof cases
    case 1 then show ?thesis using lit [of "''null''" 4] by simp
  next
    case 2 then show ?thesis using lit [of "''true''" 4] by simp
  next
    case 3 then show ?thesis using lit [of "''false''" 5] by simp
  next
    case 4 then show ?thesis using lit [of "''NaN''" 3] by simp
  next
    case 5 then show ?thesis using lit [of "''Infinity''" 8] by simp
  next
    case 6 then show ?thesis using lit [of "''-Infinity''" 9] by simp
  next
    case 7
    then obtain c where c: "s = c @ r" "CHR 0x60 \<notin> set c" using match_number_consumed by blast
    have "length r < length s" using 7 by (rule match_number_length)
    then have "c \<noteq> []" using c(1) by auto
    then show ?thesis using c by blast
  qed
qed


lemma hexval_not_backquote: "hexval c = Some n \<Longrightarrow> c \<noteq> CHR 0x60"
  by (auto simp: hexval_def Let_def split: if_splits)

lemma decode_u4_consumed:
  "decode_u4 s = Some (x, r) \<Longrightarrow> \<exists>c. s = c @ r \<and> CHR 0x60 \<notin> set c"
proof -
  assume a: "decode_u4 s = Some (x, r)"
  then obtain h1 h2 h3 h4 where s: "s = h1 # h2 # h3 # h4 # r" and h: "hex4 h1 h2 h3 h4 = Some x"
    by (auto simp: decode_u4_def split: list.splits option.splits)
  from h obtain a b c d where "hexval h1 = Some a" "hexval h2 = Some b" "hexval h3 = Some c" "hexval h4 = Some d"
    by (auto simp: hex4_def split: option.splits)
  then have "CHR 0x60 \<notin> set [h1, h2, h3, h4]"
    using hexval_not_backquote by auto
  moreover have "s = [h1, h2, h3, h4] @ r" using s by simp
  ultimately show ?thesis by blast
qed

lemma decode_low_surrogate_consumed:
  "decode_low_surrogate s = Some (x, r) \<Longrightarrow> \<exists>c. s = c @ r \<and> CHR 0x60 \<notin> set c"
proof -
  assume a: "decode_low_surrogate s = Some (x, r)"
  then obtain b v t where s: "s = b # v # t" and bv: "b = CHR 0x5C" "v = CHR ''u''"
    by (auto simp: decode_low_surrogate_def split: list.splits if_splits)
  then have "decode_u4 t = Some (x, r)"
    using a by (auto simp: decode_low_surrogate_def split: option.splits if_splits)
  then obtain c where c: "t = c @ r" "CHR 0x60 \<notin> set c" using decode_u4_consumed by blast
  have "s = (b # v # c) @ r" using s c by simp
  moreover have "CHR 0x60 \<notin> set (b # v # c)" using bv c by simp
  ultimately show ?thesis by blast
qed

lemma escape_char_not_backquote: "escape_char e = Some x \<Longrightarrow> e \<noteq> CHR 0x60"
  by (auto simp: escape_char_def split: if_splits)

lemma decode_escape_consumed:
  "decode_escape s = Some (x, r) \<Longrightarrow> \<exists>c. s = c @ r \<and> CHR 0x60 \<notin> set c"
proof -
  assume a: "decode_escape s = Some (x, r)"
  then obtain e es where s: "s = e # es" by (cases s) (auto simp: decode_escape_def)
  show ?thesis
  proof (cases "e = CHR ''u''")
    case True
    then obtain u r1 where u: "decode_u4 es = Some (u, r1)"
      using a s by (auto simp: decode_escape_def split: option.splits)
    then obtain c1 where c1: "es = c1 @ r1" "CHR 0x60 \<notin> set c1" using decode_u4_consumed by blast
    show ?thesis
    proof (cases "r = r1")
      case True
      then have "s = (e # c1) @ r" using s c1 by simp
      moreover have "CHR 0x60 \<notin> set (e # c1)" using \<open>e = CHR ''u''\<close> c1 by simp
      ultimately show ?thesis by blast
    next
      case False
      then obtain u2 where "decode_low_surrogate r1 = Some (u2, r)"
        using a s \<open>e = CHR ''u''\<close> u by (auto simp: decode_escape_def split: option.splits if_splits)
      then obtain c2 where c2: "r1 = c2 @ r" "CHR 0x60 \<notin> set c2"
        using decode_low_surrogate_consumed by blast
      have "s = (e # c1 @ c2) @ r" using s c1 c2 by simp
      moreover have "CHR 0x60 \<notin> set (e # c1 @ c2)" using \<open>e = CHR ''u''\<close> c1 c2 by simp
      ultimately show ?thesis by blast
    qed
  next
    case False
    then obtain y where "escape_char e = Some y" and r: "r = es"
      using a s by (auto simp: decode_escape_def split: option.splits)
    then have "e \<noteq> CHR 0x60" using escape_char_not_backquote by blast
    then have "s = [e] @ r \<and> CHR 0x60 \<notin> set [e]" using s r by simp
    then show ?thesis by blast
  qed
qed

lemma cons_result_Some:
  "cons_result x p = Some (xs, r) \<Longrightarrow> \<exists>ys. p = Some (ys, r)"
  by (auto simp: cons_result_def split: option.splits)

lemma scanstring_blocked:
  "scanstring s = Some (x, r) \<Longrightarrow> s = u @ CHR 0x60 # Z \<Longrightarrow>
     (\<exists>u'. r = u' @ CHR 0x60 # Z) \<or> (\<exists>y. scanstring (CHR 0x60 # Z) = Some (y, r))"
proof (induction s arbitrary: x u rule: scanstring.induct)
  case 1
  then show ?case by simp
next
  case (2 c cs)
  show ?case
  proof (cases u)
    case Nil
    then show ?thesis using "2.prems" by auto
  next
    case (Cons c' u1)
    then have c: "c' = c" and cs: "cs = u1 @ CHR 0x60 # Z" using "2.prems"(2) by auto
    show ?thesis
    proof (cases "c = CHR 0x22")
      case True
      then have "r = cs" using "2.prems"(1) by simp
      then show ?thesis using cs by blast
    next
      case nq: False
      show ?thesis
      proof (cases "c = CHR 0x5C")
        case True
        then obtain e r0 where d: "decode_escape cs = Some (e, r0)"
          using "2.prems"(1) nq by (auto split: option.splits)
        then have "cons_result e (scanstring r0) = Some (x, r)"
          using "2.prems"(1) nq True by simp
        then obtain ys where sc: "scanstring r0 = Some (ys, r)" using cons_result_Some by blast
        obtain cc where "cs = cc @ r0" "CHR 0x60 \<notin> set cc"
          using decode_escape_consumed [OF d] by blast
        then obtain u' where "r0 = u' @ CHR 0x60 # Z"
          using cs cut_before [of cc r0 u1 "CHR 0x60" Z] by auto
        from "2.IH"(1) [OF nq True d refl sc this] show ?thesis .
      next
        case nb: False
        then have ctl: "\<not> (of_char c :: nat) < 32"
          using "2.prems"(1) nq by (auto split: if_splits)
        then have "cons_result (of_char c) (scanstring cs) = Some (x, r)"
          using "2.prems"(1) nq nb by simp
        then obtain ys where sc: "scanstring cs = Some (ys, r)" using cons_result_Some by blast
        from "2.IH"(2) [OF nq nb ctl sc cs] show ?thesis .
      qed
    qed
  qed
qed

lemma skip_ws_append_backquote:
  "\<exists>u'. skip_ws (u @ CHR 0x60 # Z) = u' @ CHR 0x60 # Z"
proof (induction u)
  case Nil
  have "skip_ws (CHR 0x60 # Z) = [] @ CHR 0x60 # Z" by (simp add: skip_ws_def json_ws_def)
  then show ?case by (metis append_Nil)
next
  case (Cons c u)
  show ?case
  proof (cases "json_ws c")
    case True
    then have "skip_ws ((c # u) @ CHR 0x60 # Z) = skip_ws (u @ CHR 0x60 # Z)"
      by (simp add: skip_ws_def)
    then show ?thesis using Cons by simp
  next
    case False
    then have "skip_ws ((c # u) @ CHR 0x60 # Z) = (c # u) @ CHR 0x60 # Z"
      by (simp add: skip_ws_def)
    then show ?thesis by blast
  qed
qed

lemma blocked_skip_ws:
  assumes "blocked (CHR 0x60 # Z) (CHR ''l'' # B') s"
  shows "blocked (CHR 0x60 # Z) (CHR ''l'' # B') (skip_ws s)"
  using assms skip_ws_append_backquote [of _ Z]
  by (auto simp: blocked_def skip_ws_def json_ws_def)

lemma blocked_tail:
  assumes "blocked (CHR 0x60 # Z) (CHR ''l'' # B') (d # ds)" and "d \<noteq> CHR 0x60" and "d \<noteq> CHR ''l''"
  shows "\<exists>u. ds = u @ CHR 0x60 # Z"
proof -
  from assms obtain u where u: "d # ds = u @ CHR 0x60 # Z" by (auto simp: blocked_def)
  then show ?thesis using assms(2) by (cases u) auto
qed

lemma blocked_tail':
  assumes "blocked (CHR 0x60 # Z) (CHR ''l'' # B') (d # ds)" and "d \<noteq> CHR 0x60" and "d \<noteq> CHR ''l''"
  shows "blocked (CHR 0x60 # Z) (CHR ''l'' # B') ds"
  using blocked_tail [OF assms] by (simp add: blocked_def)

lemma scan_atom_l: "scan_atom (CHR ''l'' # t) = None"
  by (simp add: scan_atom_def starts_with_def match_number_def int_part_def is_digit_def)

lemma blocked_atom:
  assumes "blocked (CHR 0x60 # Z) (CHR ''l'' # B') s" and "scan_atom s = Some (v, r)"
  shows "blocked (CHR 0x60 # Z) (CHR ''l'' # B') r"
proof -
  from assms scan_atom_l obtain u where u: "s = u @ CHR 0x60 # Z" by (auto simp: blocked_def)
  obtain c where "s = c @ r" "CHR 0x60 \<notin> set c" using scan_atom_consumed [OF assms(2)] by blast
  then have "\<exists>u'. r = u' @ CHR 0x60 # Z" using u cut_before [of c r u "CHR 0x60" Z] by auto
  then show ?thesis by (simp add: blocked_def)
qed

lemma blocked_string:
  assumes "\<forall>y r. scanstring (CHR 0x60 # Z) = Some (y, r) \<longrightarrow> r = CHR ''l'' # B'"
    and "cs = u @ CHR 0x60 # Z" and "scanstring cs = Some (x, r)"
  shows "blocked (CHR 0x60 # Z) (CHR ''l'' # B') r"
  using scanstring_blocked [OF assms(3,2)] assms(1) by (auto simp: blocked_def)


lemma parse_blocked:
  assumes sF: "\<forall>y r. scanstring (CHR 0x60 # Z) = Some (y, r) \<longrightarrow> r = CHR ''l'' # B'"
  shows "parse m s = Some (v, r) \<Longrightarrow> blocked (CHR 0x60 # Z) (CHR ''l'' # B') s
         \<Longrightarrow> blocked (CHR 0x60 # Z) (CHR ''l'' # B') r"
proof (induction m s arbitrary: v r rule: parse.induct)
  case (1 s)
  let ?bl = "blocked (CHR 0x60 # Z) (CHR ''l'' # B')"
  from "1.prems"(1) obtain c cs where s: "s = c # cs" by (cases s) auto
  show ?case
  proof (cases "c = CHR 0x22")
    case True
    then obtain str where sc: "scanstring cs = Some (str, r)"
      using "1.prems"(1) s by (auto split: option.splits)
    obtain u where "cs = u @ CHR 0x60 # Z"
      using blocked_tail [of Z B' c cs] "1.prems"(2) s True by auto
    then show ?thesis using blocked_string [OF sF _ sc] by blast
  next
    case nq: False
    show ?thesis
    proof (cases "c = CHR ''{''")
      case True
      then obtain d ds where d: "skip_ws cs = d # ds"
        using "1.prems"(1) s by (cases "skip_ws cs") auto
      have "?bl cs" using blocked_tail' [of Z B' c cs] "1.prems"(2) s True by auto
      then have bd: "?bl (d # ds)" using blocked_skip_ws [of Z B' cs] d by simp
      show ?thesis
      proof (cases "d = CHR ''}''")
        case True
        then have "r = ds" using "1.prems"(1) s nq \<open>c = CHR ''{''\<close> d by simp
        then show ?thesis using blocked_tail' [OF bd] True by simp
      next
        case False
        then have p: "parse (PMembers []) (d # ds) = Some (v, r)"
          using "1.prems"(1) s nq \<open>c = CHR ''{''\<close> d by simp
        from "1.IH"(1) [OF s nq \<open>c = CHR ''{''\<close> d False p bd] show ?thesis .
      qed
    next
      case nb: False
      show ?thesis
      proof (cases "c = CHR ''[''")
        case True
        then obtain d ds where d: "skip_ws cs = d # ds"
          using "1.prems"(1) s nq nb by (cases "skip_ws cs") auto
        have "?bl cs" using blocked_tail' [of Z B' c cs] "1.prems"(2) s True by auto
        then have bd: "?bl (d # ds)" using blocked_skip_ws [of Z B' cs] d by simp
        show ?thesis
        proof (cases "d = CHR '']''")
          case True
          then have "r = ds" using "1.prems"(1) s nq nb \<open>c = CHR ''[''\<close> d by simp
          then show ?thesis using blocked_tail' [OF bd] True by simp
        next
          case False
          then have p: "parse (PElems []) (d # ds) = Some (v, r)"
            using "1.prems"(1) s nq nb \<open>c = CHR ''[''\<close> d by simp
          from "1.IH"(2) [OF s nq nb \<open>c = CHR ''[''\<close> d False p bd] show ?thesis .
        qed
      next
        case False
        then have "scan_atom s = Some (v, r)" using "1.prems"(1) s nq nb by simp
        then show ?thesis using blocked_atom "1.prems"(2) by blast
      qed
    qed
  qed
next
  case (2 acc s)
  let ?bl = "blocked (CHR 0x60 # Z) (CHR ''l'' # B')"
  from "2.prems"(1) obtain v1 r1 where p: "parse PValue s = Some (v1, r1)"
    by (auto split: option.splits)
  from "2.prems"(1) p have l1: "length r1 < length s" by (auto split: if_splits)
  from "2.prems"(1) p l1 obtain d ds where d: "skip_ws r1 = d # ds"
    by (cases "skip_ws r1") auto
  have "?bl r1" using "2.IH"(1) [OF p "2.prems"(2)] .
  then have bd: "?bl (d # ds)" using blocked_skip_ws [of Z B' r1] d by simp
  show ?case
  proof (cases "d = CHR '']''")
    case True
    then have "r = ds" using "2.prems"(1) p l1 d by simp
    then show ?thesis using blocked_tail' [OF bd] True by simp
  next
    case nc: False
    then have c: "d = CHR '',''" using "2.prems"(1) p l1 d by (auto split: if_splits)
    then have q: "parse (PElems (acc @ [v1])) (skip_ws ds) = Some (v, r)"
      using "2.prems"(1) p l1 d nc by simp
    have "?bl ds" using blocked_tail' [OF bd] c by simp
    then have "?bl (skip_ws ds)" by (rule blocked_skip_ws)
    from "2.IH"(2) [OF p refl l1 d nc c q this] show ?thesis .
  qed
next
  case (3 acc s)
  let ?bl = "blocked (CHR 0x60 # Z) (CHR ''l'' # B')"
  from "3.prems"(1) obtain q cs where s: "s = q # cs" by (cases s) auto
  from "3.prems"(1) s have qq: "q = CHR 0x22" by (auto split: if_splits)
  from "3.prems"(1) s qq obtain key r0 where k: "scanstring cs = Some (key, r0)"
    by (auto split: option.splits)
  from "3.prems"(1) s qq k obtain c r1 where c: "skip_ws r0 = c # r1"
    by (cases "skip_ws r0") auto
  from "3.prems"(1) s qq k c have cc: "c = CHR '':''" by (auto split: if_splits)
  from "3.prems"(1) s qq k c cc obtain v1 r2 where p: "parse PValue (skip_ws r1) = Some (v1, r2)"
    by (auto split: option.splits)
  from "3.prems"(1) s qq k c cc p have l2: "length r2 < length s" by (auto split: if_splits)
  from "3.prems"(1) s qq k c cc p l2 obtain d ds where d: "skip_ws r2 = d # ds"
    by (cases "skip_ws r2") auto
  obtain u where "cs = u @ CHR 0x60 # Z"
    using blocked_tail [of Z B' q cs] "3.prems"(2) s qq by auto
  then have "?bl r0" using blocked_string [OF sF _ k] by blast
  then have "?bl (c # r1)" using blocked_skip_ws [of Z B' r0] c by simp
  then have "?bl r1" using blocked_tail' cc by simp
  then have b1: "?bl (skip_ws r1)" by (rule blocked_skip_ws)
  have "?bl r2" using "3.IH"(1) [OF s qq k refl c cc p b1] .
  then have bd: "?bl (d # ds)" using blocked_skip_ws [of Z B' r2] d by simp
  show ?case
  proof (cases "d = CHR ''}''")
    case True
    then have "r = ds" using "3.prems"(1) s qq k c cc p l2 d by simp
    then show ?thesis using blocked_tail' [OF bd] True by simp
  next
    case nc: False
    then have dc: "d = CHR '',''" using "3.prems"(1) s qq k c cc p l2 d by (auto split: if_splits)
    then have q2: "parse (PMembers (dict_set acc key v1)) (skip_ws ds) = Some (v, r)"
      using "3.prems"(1) s qq k c cc p l2 d nc by simp
    have "?bl ds" using blocked_tail' [OF bd] dc by simp
    then have "?bl (skip_ws ds)" by (rule blocked_skip_ws)
    from "3.IH"(2) [OF s qq k refl c cc p refl l2 d nc dc q2 this] show ?thesis .
  qed
qed

lemma json_loads_blocked:
  assumes "\<forall>y r. scanstring (CHR 0x60 # Z) = Some (y, r) \<longrightarrow> r = CHR ''l'' # B'"
  shows "json_loads (pre @ CHR 0x60 # Z) = None"
proof (cases "parse PValue (skip_ws (pre @ CHR 0x60 # Z))")
  case None
  then show ?thesis by (simp add: json_loads_def)
next
  case (Some a)
  obtain v r where a: "a = (v, r)" by (cases a)
  have "blocked (CHR 0x60 # Z) (CHR ''l'' # B') (pre @ CHR 0x60 # Z)"
    by (auto simp: blocked_def)
  then have "blocked (CHR 0x60 # Z) (CHR ''l'' # B') (skip_ws (pre @ CHR 0x60 # Z))"
    by (rule blocked_skip_ws)
  then have "blocked (CHR 0x60 # Z) (CHR ''l'' # B') r"
    using parse_blocked [OF assms] Some a by blast
  then have "blocked (CHR 0x60 # Z) (CHR ''l'' # B') (skip_ws r)"
    by (rule blocked_skip_ws)
  then have "skip_ws r \<noteq> []" by (auto simp: blocked_def)
  then show ?thesis using Some a by (simp add: json_loads_def)
qed

lemma scanstring_plain:
  assumes "\<forall>c\<in>set w. c \<noteq> CHR 0x22 \<and> c \<noteq> CHR 0x5C"
    and "scanstring (w @ CHR 0x22 # t) = Some (y, r)"
  shows "r = t"
  using assms
proof (induction w arbitrary: y)
  case Nil
  then show ?case by simp
next
  case (Cons c w)
  from Cons.prems have "cons_result (of_char c) (scanstring (w @ CHR 0x22 # t)) = Some (y, r)"
    by (auto split: if_splits)
  then obtain ys where "scanstring (w @ CHR 0x22 # t) = Some (ys, r)"
    using cons_result_Some by blast
  then show ?case using Cons.IH Cons.prems(1) by auto
qed

lemma word_not_quote: "is_word c \<Longrightarrow> c \<noteq> CHR 0x22 \<and> c \<noteq> CHR 0x5C"
  by (auto simp: is_word_def)

lemma space_not_quote: "is_space c \<Longrightarrow> c \<noteq> CHR 0x22 \<and> c \<noteq> CHR 0x5C"
  by (auto simp: is_space_def)

lemma parse_whole_fenced:
  assumes "\<forall>c\<in>set tag. is_word c" and "\<forall>c\<in>set ws1. is_space c"
  shows "parse_whole (fenced pre tag ws1 ws2 post) = []"
proof -
  let ?B' = "''abel\":\"cat\",\"bbox_2d\":[10,20,30,40]}'' @ ws2 @ ''```'' @ post"
  let ?w = "''``'' @ tag @ ws1 @ ''{''"
  let ?Z = "?w @ CHR 0x22 # CHR ''l'' # ?B'"
  have f: "fenced pre tag ws1 ws2 post = pre @ CHR 0x60 # ?Z"
    by (simp add: fenced_def cat_json_def)
  have w: "\<forall>c\<in>set (CHR 0x60 # ?w). c \<noteq> CHR 0x22 \<and> c \<noteq> CHR 0x5C"
    using assms word_not_quote space_not_quote by auto
  have "r = CHR ''l'' # ?B'" if "scanstring (CHR 0x60 # ?Z) = Some (y, r)" for y r
    using scanstring_plain [OF w, of "CHR ''l'' # ?B'" y r] that by simp
  then have "\<forall>y r. scanstring (CHR 0x60 # ?Z) = Some (y, r) \<longrightarrow> r = CHR ''l'' # ?B'"
    by blast
  then have "json_loads (pre @ CHR 0x60 # ?Z) = None"
    by (rule json_loads_blocked)
  then show ?thesis by (simp add: parse_whole_def f)
qed


subsection \<open>The result on a fenced block\<close>

lemma extract_stage1_wins:
  "parse_whole s \<noteq> [] \<Longrightarrow> extract_bbox_data s = Inr (parse_whole s)"
  by (simp add: extract_bbox_data_def Let_def)

lemma extract_fenced:
  assumes "\<forall>c\<in>set tag. is_word c" and "\<forall>c\<in>set ws1. is_space c" and "\<forall>c\<in>set ws2. is_space c"
    and "\<not> occurs_in ''```'' (pre @ ''``'')"
  shows "extract_bbox_data (fenced pre tag ws1 ws2 post) = Inr [cat_box]"
  using scan_code_blocks_fenced [OF assms, of post] parse_whole_fenced [OF assms(1,2), of pre ws2 post]
  by (simp add: extract_bbox_data_def Let_def)

subsection \<open>The \<open>bbox2d\<close> notation\<close>






subsection \<open>Texts without fences and answer tags\<close>




subsection \<open>The results on the extraction\<close>

text \<open>
  C1. On the JSON text of the example the extraction returns exactly the record with
  label \<open>cat\<close> and box \<open>(10, 20, 30, 40)\<close>. On every text made of prose, a fenced code
  block holding that JSON text (with any language tag of word characters and any white
  space around the JSON text inside the fences) and more prose, where the opening fence
  of the block is the first run of three backquotes of the text, the whole text read as
  one JSON value yields no record and the extraction returns the same single record, from
  the code block. The code-block stage is reached only when the first stage yields
  nothing: whenever the whole text yields records, they are the result.
\<close>

theorem extract_cat_json_plain_and_fenced:
  "extract_bbox_data cat_json = Inr [cat_box]
   \<and> ((\<forall>c\<in>set tag. is_word c) \<and> (\<forall>c\<in>set ws1. is_space c) \<and> (\<forall>c\<in>set ws2. is_space c)
        \<and> \<not> occurs_in ''```'' (pre @ ''``'')
        \<longrightarrow> parse_whole (fenced pre tag ws1 ws2 post) = []
            \<and> scan_code_blocks (fenced pre tag ws1 ws2 post) = [cat_box]
            \<and> extract_bbox_data (fenced pre tag ws1 ws2 post) = Inr [cat_box])
   \<and> (parse_whole s \<noteq> [] \<longrightarrow> extract_bbox_data s = Inr (parse_whole s))"
proof (intro conjI impI)
  show "extract_bbox_data cat_json = Inr [cat_box]"
    by (simp add: extract_bbox_data_def parse_whole_def loads_cat collect_cat)
  assume h: "(\<forall>c\<in>set tag. is_word c) \<and> (\<forall>c\<in>set ws1. is_space c) \<and> (\<forall>c\<in>set ws2. is_space c)
        \<and> \<not> occurs_in ''```'' (pre @ ''``'')"
  show "parse_whole (fenced pre tag ws1 ws2 post) = []"
    using h by (intro parse_whole_fenced) auto
  show "scan_code_blocks (fenced pre tag ws1 ws2 post) = [cat_box]"
    using h by (intro scan_code_blocks_fenced) auto
  show "extract_bbox_data (fenced pre tag ws1 ws2 post) = Inr [cat_box]"
    using h by (intro extract_fenced) auto
next
  show "extract_bbox_data s = Inr (parse_whole s)" if "parse_whole s \<noteq> []"
    using that by (rule extract_stage1_wins)
qed

theorem extract_cat_json_plain_and_fenced_witness:
  "extract_bbox_data
     (fenced ''The `cat` is here: '' ''json'' [CHR 0x0A] [CHR 0x0A] '' Anything else?'')
     = Inr [cat_box]
   \<and> parse_whole cat_json \<noteq> [] \<and> extract_bbox_data cat_json = Inr (parse_whole cat_json)"
proof -
  have h1: "(\<forall>c\<in>set ''json''. is_word c) \<and> (\<forall>c\<in>set [CHR 0x0A]. is_space c)
      \<and> (\<forall>c\<in>set [CHR 0x0A]. is_space c)
      \<and> \<not> occurs_in ''```'' (''The `cat` is here: '' @ ''``'')"
    by (simp add: is_word_def is_space_def starts_with_def)
  have h3: "parse_whole cat_json \<noteq> []"
    by (simp add: parse_whole_def loads_cat collect_cat)
  show ?thesis
    using h1 h3
      extract_cat_json_plain_and_fenced [of "''json''" "[CHR 0x0A]" "[CHR 0x0A]"
        "''The `cat` is here: ''" "'' Anything else?''" cat_json]
    by blast
qed

text \<open>
  C8. On the input \<open>bbox2d cat 10, 20, 30, 40\<close> the extraction returns no record: the
  two \<open>$\<close> of the pattern are end-of-text anchors, so the pattern only matches a
  \<open>bbox2d <label>\<close> that ends the text, and the numeric run it captures is always empty
  (\<open>bbox2d_stage_dead\<close>: the last stage never adds a record, on any text).
\<close>

theorem bbox2d_notation_yields_nothing:
  "extract_bbox_data ''bbox2d cat 10, 20, 30, 40'' = Inr []"
  by (simp add: extract_eval json_eval rx_eval)





section \<open>Shapes\<close>

text \<open>
  A shape of the annotation document: the label, the corner points and the shape type.
  The remaining fields of the dictionaries the code builds are constants
  (\<open>group_id: None\<close>, \<open>flags: {}\<close>, ...) and are left out.
\<close>

record 'l shape =
  label :: 'l
  points :: "(pynum \<times> pynum) list"
  shape_type :: string

section \<open>The three coordinate normalisers\<close>

text \<open>
  \<open>convert_entry_to_xlabel\<close> of the standalone converter script, the body of its loop over
  the extracted items, for a label and a box of numbers: unpack the four coordinates (a
  \<open>ValueError\<close> when there are not four), clamp, reorder, emit the corners. Image sizes
  are natural numbers.
\<close>

definition convert_entry_to_xlabel ::
  "nat \<Rightarrow> nat \<Rightarrow> 'l \<Rightarrow> pynum list \<Rightarrow> py_error + 'l shape" where
  "convert_entry_to_xlabel image_width image_height lbl bbox_2d =
     (case bbox_2d of
        [x1, y1, x2, y2] \<Rightarrow>
          (let x1 = py_max (Fin 0) (py_min x1 (Fin (of_nat image_width)));
               y1 = py_max (Fin 0) (py_min y1 (Fin (of_nat image_height)));
               x2 = py_max (Fin 0) (py_min x2 (Fin (of_nat image_width)));
               y2 = py_max (Fin 0) (py_min y2 (Fin (of_nat image_height)));
               xmin = py_min x1 x2; xmax = py_max x1 x2;
               ymin = py_min y1 y2; ymax = py_max y1 y2
           in Inr \<lparr>label = lbl,
                   points = [(xmin, ymin), (xmax, ymin), (xmax, ymax), (xmin, ymax)],
                   shape_type = ''rectangle''\<rparr>)
      | _ \<Rightarrow> Inl ValueError)"

text \<open>
  \<open>ChatbotDialog.generate_xlabel_from_assistant_response\<close>, the body of its loop: unpack,
  clamp, emit the corners from the clamped input as it stands.
\<close>

definition generate_xlabel_from_assistant_response ::
  "nat \<Rightarrow> nat \<Rightarrow> 'l \<Rightarrow> pynum list \<Rightarrow> py_error + 'l shape" where
  "generate_xlabel_from_assistant_response image_width image_height lbl bbox_2d =
     (case bbox_2d of
        [x1, y1, x2, y2] \<Rightarrow>
          (let x1 = py_max (Fin 0) (py_min x1 (Fin (of_nat image_width)));
               y1 = py_max (Fin 0) (py_min y1 (Fin (of_nat image_height)));
               x2 = py_max (Fin 0) (py_min x2 (Fin (of_nat image_width)));
               y2 = py_max (Fin 0) (py_min y2 (Fin (of_nat image_height)))
           in Inr \<lparr>label = lbl,
                   points = [(x1, y1), (x2, y1), (x2, y2), (x1, y2)],
                   shape_type = ''rectangle''\<rparr>)
      | _ \<Rightarrow> Inl ValueError)"

text \<open>
  \<open>ChatbotDialog._convert_vlm_r1_ovd_entry_to_xlabel\<close>, the body of its loop: a box that
  has not four entries is skipped (\<open>None\<close>); when all four lie in \<open>[0, 1]\<close> they are
  scaled by the image size; then clamp and emit the corners.
\<close>

definition normalized01 :: "pynum \<Rightarrow> bool" where
  "normalized01 coord = (py_le (Fin 0) coord \<and> py_le coord (Fin 1))"

definition convert_vlm_r1_ovd_entry_to_xlabel ::
  "nat \<Rightarrow> nat \<Rightarrow> 'l \<Rightarrow> pynum list \<Rightarrow> 'l shape option" where
  "convert_vlm_r1_ovd_entry_to_xlabel image_width image_height lbl bbox =
     (case bbox of
        [b0, b1, b2, b3] \<Rightarrow>
          (let (x1, y1, x2, y2) =
                 (if list_all normalized01 bbox
                  then (py_mul b0 image_width, py_mul b1 image_height,
                        py_mul b2 image_width, py_mul b3 image_height)
                  else (b0, b1, b2, b3));
               x1 = py_max (Fin 0) (py_min (Fin (of_nat image_width)) x1);
               y1 = py_max (Fin 0) (py_min (Fin (of_nat image_height)) y1);
               x2 = py_max (Fin 0) (py_min (Fin (of_nat image_width)) x2);
               y2 = py_max (Fin 0) (py_min (Fin (of_nat image_height)) y2)
           in Some \<lparr>label = lbl,
                    points = [(x1, y1), (x2, y1), (x2, y2), (x1, y2)],
                    shape_type = ''rectangle''\<rparr>)
      | _ \<Rightarrow> None)"

text \<open>A coordinate lies within \<open>[0, bound]\<close>: it is finite and between the two.\<close>

fun in_range :: "nat \<Rightarrow> pynum \<Rightarrow> bool" where
  "in_range bound (Fin r) = (0 \<le> r \<and> r \<le> of_nat bound)"
| "in_range bound _ = False"

definition in_image :: "nat \<Rightarrow> nat \<Rightarrow> pynum \<times> pynum \<Rightarrow> bool" where
  "in_image image_width image_height p = (in_range image_width (fst p) \<and> in_range image_height (snd p))"

section \<open>Clamping\<close>

lemma clamp_script_in_range: "in_range w (py_max (Fin 0) (py_min x (Fin (of_nat w))))"
  by (cases x) (auto simp: py_min_def py_max_def)

lemma clamp_dialog_in_range: "in_range w (py_max (Fin 0) (py_min (Fin (of_nat w)) x))"
  by (cases x) (auto simp: py_min_def py_max_def)

lemma py_min_in_range: "in_range w a \<Longrightarrow> in_range w b \<Longrightarrow> in_range w (py_min a b)"
  by (simp add: py_min_def)

lemma py_max_in_range: "in_range w a \<Longrightarrow> in_range w b \<Longrightarrow> in_range w (py_max a b)"
  by (simp add: py_max_def)

text \<open>
  C5. Whatever the four coordinates of the input box are (beyond the image, negative,
  infinite or NaN), every corner each of the three normalisers emits has its x coordinate
  in \<open>[0, image_width]\<close> and its y coordinate in \<open>[0, image_height]\<close>.
\<close>

theorem normalizer_output_within_image:
  "(\<exists>s. convert_entry_to_xlabel w h l [x1, y1, x2, y2] = Inr s
        \<and> length (points s) = 4 \<and> list_all (in_image w h) (points s))
   \<and> (\<exists>s. generate_xlabel_from_assistant_response w h l [x1, y1, x2, y2] = Inr s
        \<and> length (points s) = 4 \<and> list_all (in_image w h) (points s))
   \<and> (\<exists>s. convert_vlm_r1_ovd_entry_to_xlabel w h l [x1, y1, x2, y2] = Some s
        \<and> length (points s) = 4 \<and> list_all (in_image w h) (points s))"
proof (intro conjI)
  show "\<exists>s. convert_entry_to_xlabel w h l [x1, y1, x2, y2] = Inr s
        \<and> length (points s) = 4 \<and> list_all (in_image w h) (points s)"
    by (simp add: convert_entry_to_xlabel_def Let_def in_image_def
        py_min_in_range py_max_in_range clamp_script_in_range)
  show "\<exists>s. generate_xlabel_from_assistant_response w h l [x1, y1, x2, y2] = Inr s
        \<and> length (points s) = 4 \<and> list_all (in_image w h) (points s)"
    by (simp add: generate_xlabel_from_assistant_response_def Let_def in_image_def
        clamp_script_in_range)
  show "\<exists>s. convert_vlm_r1_ovd_entry_to_xlabel w h l [x1, y1, x2, y2] = Some s
        \<and> length (points s) = 4 \<and> list_all (in_image w h) (points s)"
    by (simp add: convert_vlm_r1_ovd_entry_to_xlabel_def Let_def in_image_def
        clamp_dialog_in_range split: prod.split)
qed

section \<open>Scaling and reordering\<close>

text \<open>Clamping a finite coordinate into \<open>[0, bound]\<close>.\<close>

definition clamp :: "nat \<Rightarrow> rat \<Rightarrow> rat" where
  "clamp bound x = max 0 (min x (of_nat bound))"

lemma clamp_script_Fin: "py_max (Fin 0) (py_min (Fin x) (Fin (of_nat w))) = Fin (clamp w x)"
  by (auto simp: py_min_def py_max_def clamp_def min_def max_def)

lemma clamp_dialog_Fin: "py_max (Fin 0) (py_min (Fin (of_nat w)) (Fin x)) = Fin (clamp w x)"
  by (auto simp: py_min_def py_max_def clamp_def min_def max_def)

lemma py_min_Fin: "py_min (Fin a) (Fin b) = Fin (min a b)"
  by (auto simp: py_min_def min_def)

lemma py_max_Fin: "py_max (Fin a) (Fin b) = Fin (max a b)"
  by (auto simp: py_max_def max_def)

lemma script_reorders:
  "convert_entry_to_xlabel w h l [Fin x1, Fin y1, Fin x2, Fin y2] =
     Inr \<lparr>label = l,
          points = [(Fin (min (clamp w x1) (clamp w x2)), Fin (min (clamp h y1) (clamp h y2))),
                    (Fin (max (clamp w x1) (clamp w x2)), Fin (min (clamp h y1) (clamp h y2))),
                    (Fin (max (clamp w x1) (clamp w x2)), Fin (max (clamp h y1) (clamp h y2))),
                    (Fin (min (clamp w x1) (clamp w x2)), Fin (max (clamp h y1) (clamp h y2)))],
          shape_type = ''rectangle''\<rparr>"
  by (simp add: convert_entry_to_xlabel_def Let_def py_min_Fin py_max_Fin clamp_def)

lemma clamp_scaled:
  assumes "0 \<le> a" and "a \<le> 1"
  shows "clamp w (a * of_nat w) = a * of_nat w"
proof -
  have "0 \<le> a * of_nat w" using assms(1) by simp
  moreover have "a * of_nat w \<le> of_nat w"
    using assms(2) mult_right_mono [of a 1 "of_nat w"] by simp
  ultimately show ?thesis by (simp add: clamp_def)
qed

lemma dialog_scales_normalized:
  assumes "0 \<le> a \<and> a \<le> 1" "0 \<le> b \<and> b \<le> 1" "0 \<le> c \<and> c \<le> 1" "0 \<le> d \<and> d \<le> 1"
  shows "convert_vlm_r1_ovd_entry_to_xlabel w h l [Fin a, Fin b, Fin c, Fin d] =
     Some \<lparr>label = l,
           points = [(Fin (a * of_nat w), Fin (b * of_nat h)), (Fin (c * of_nat w), Fin (b * of_nat h)),
                     (Fin (c * of_nat w), Fin (d * of_nat h)), (Fin (a * of_nat w), Fin (d * of_nat h))],
           shape_type = ''rectangle''\<rparr>"
  using assms
  by (simp add: convert_vlm_r1_ovd_entry_to_xlabel_def Let_def normalized01_def
      clamp_dialog_Fin clamp_scaled)

lemma dialog_keeps_pixels:
  assumes "\<not> (0 \<le> a \<and> a \<le> 1 \<and> 0 \<le> b \<and> b \<le> 1 \<and> 0 \<le> c \<and> c \<le> 1 \<and> 0 \<le> d \<and> d \<le> 1)"
  shows "convert_vlm_r1_ovd_entry_to_xlabel w h l [Fin a, Fin b, Fin c, Fin d] =
     Some \<lparr>label = l,
           points = [(Fin (clamp w a), Fin (clamp h b)), (Fin (clamp w c), Fin (clamp h b)),
                     (Fin (clamp w c), Fin (clamp h d)), (Fin (clamp w a), Fin (clamp h d))],
           shape_type = ''rectangle''\<rparr>"
  using assms
  by (auto simp: convert_vlm_r1_ovd_entry_to_xlabel_def Let_def normalized01_def clamp_dialog_Fin)

lemma dialog_example:
  "convert_vlm_r1_ovd_entry_to_xlabel 1024 538 l [Fin (1/2), Fin (1/2), Fin 1, Fin 1] =
     Some \<lparr>label = l,
           points = [(Fin 512, Fin 269), (Fin 1024, Fin 269), (Fin 1024, Fin 538), (Fin 512, Fin 538)],
           shape_type = ''rectangle''\<rparr>"
  using dialog_scales_normalized [of "1/2" "1/2" 1 1 1024 538 l] by simp

text \<open>
  C4. The converter of the dialog, \<open>_convert_vlm_r1_ovd_entry_to_xlabel\<close>, scales a box
  whose four coordinates lie in \<open>[0, 1]\<close> by the image size and takes any other box as
  pixels (\<open>dialog_scales_normalized\<close>, \<open>dialog_keeps_pixels\<close>, \<open>dialog_example\<close>). The
  converter of the script, \<open>convert_entry_to_xlabel\<close>, and
  \<open>generate_xlabel_from_assistant_response\<close> have no such branch: on a 1024 by 538
  image they leave the box \<open>0.5, 0.5, 1.0, 1.0\<close> as it is.
\<close>

theorem script_keeps_normalized_box:
  "convert_entry_to_xlabel 1024 538 l [Fin (1/2), Fin (1/2), Fin 1, Fin 1] =
     Inr \<lparr>label = l,
          points = [(Fin (1/2), Fin (1/2)), (Fin 1, Fin (1/2)), (Fin 1, Fin 1), (Fin (1/2), Fin 1)],
          shape_type = ''rectangle''\<rparr>
   \<and> generate_xlabel_from_assistant_response 1024 538 l [Fin (1/2), Fin (1/2), Fin 1, Fin 1] =
     Inr \<lparr>label = l,
          points = [(Fin (1/2), Fin (1/2)), (Fin 1, Fin (1/2)), (Fin 1, Fin 1), (Fin (1/2), Fin 1)],
          shape_type = ''rectangle''\<rparr>"
  by (simp add: convert_entry_to_xlabel_def generate_xlabel_from_assistant_response_def
      Let_def py_min_def py_max_def)

text \<open>
  C6. The converter of the script orders the clamped coordinates (\<open>script_reorders\<close>).
  \<open>generate_xlabel_from_assistant_response\<close> and the converter of the dialog emit the
  corners from \<open>x1, y1, x2, y2\<close> as they come: for the box \<open>30, 40, 10, 20\<close> the first
  corner they emit is \<open>(30, 40)\<close>, the bottom-right one, where the script emits
  \<open>(10, 20)\<close>.
\<close>

theorem dialog_keeps_input_order:
  "generate_xlabel_from_assistant_response 1024 538 l [Fin 30, Fin 40, Fin 10, Fin 20] =
     Inr \<lparr>label = l,
          points = [(Fin 30, Fin 40), (Fin 10, Fin 40), (Fin 10, Fin 20), (Fin 30, Fin 20)],
          shape_type = ''rectangle''\<rparr>
   \<and> convert_vlm_r1_ovd_entry_to_xlabel 1024 538 l [Fin 30, Fin 40, Fin 10, Fin 20] =
     Some \<lparr>label = l,
          points = [(Fin 30, Fin 40), (Fin 10, Fin 40), (Fin 10, Fin 20), (Fin 30, Fin 20)],
          shape_type = ''rectangle''\<rparr>
   \<and> convert_entry_to_xlabel 1024 538 l [Fin 30, Fin 40, Fin 10, Fin 20] =
     Inr \<lparr>label = l,
          points = [(Fin 10, Fin 20), (Fin 30, Fin 20), (Fin 30, Fin 40), (Fin 10, Fin 40)],
          shape_type = ''rectangle''\<rparr>"
  by (simp add: convert_entry_to_xlabel_def generate_xlabel_from_assistant_response_def
      convert_vlm_r1_ovd_entry_to_xlabel_def normalized01_def
      Let_def py_min_def py_max_def)

section \<open>The post-processing of the Qwen-VL service\<close>

text \<open>
  \<open>QwenVL.extract_json_from_response\<close>: \<open>re.search\<close> for \<^verbatim>\<open>\{.*\}\<close>, then for
  \<^verbatim>\<open>\[.*\]\<close> (both with \<open>re.DOTALL\<close>), and \<open>json.loads\<close> of the first that is found.
  Every exception is caught and gives \<open>None\<close>.
\<close>

fun rx_search :: "rx list \<Rightarrow> string \<Rightarrow> string option" where
  "rx_search r s =
     (case rx_match r s ([], []) of
        Some (rest, st) \<Rightarrow> Some (take (length s - length rest) s)
      | None \<Rightarrow> (case s of [] \<Rightarrow> None | c # cs \<Rightarrow> rx_search r cs))"

declare rx_search.simps [simp del]

definition json_object_pattern :: "rx list" where
  "json_object_pattern = [Chr (\<lambda>x. x = CHR ''{''), Star any_char, Chr (\<lambda>x. x = CHR ''}'')]"

definition json_array_pattern :: "rx list" where
  "json_array_pattern = [Chr (\<lambda>x. x = CHR ''[''), Star any_char, Chr (\<lambda>x. x = CHR '']'')]"

definition extract_json_from_response :: "string \<Rightarrow> json option" where
  "extract_json_from_response response_text =
     (case rx_search json_object_pattern response_text of
        Some json_str \<Rightarrow> json_loads json_str
      | None \<Rightarrow>
          (case rx_search json_array_pattern response_text of
             Some json_str \<Rightarrow> json_loads json_str
           | None \<Rightarrow> None))"

text \<open>The truth value of a decoded value, as \<open>if bbox:\<close> takes it.\<close>

fun truthy :: "json \<Rightarrow> bool" where
  "truthy JNull = False"
| "truthy (JBool b) = b"
| "truthy (JNum (Fin r)) = (r \<noteq> 0)"
| "truthy (JNum _) = True"
| "truthy (JStr s) = (s \<noteq> [])"
| "truthy (JArr xs) = (xs \<noteq> [])"
| "truthy (JObj d) = (d \<noteq> [])"

text \<open>\<open>d.get(k, default)\<close>.\<close>

definition dict_get :: "(nat list \<times> json) list \<Rightarrow> string \<Rightarrow> json \<Rightarrow> json" where
  "dict_get d k dflt = (case map_of d (ustr k) of Some v \<Rightarrow> v | None \<Rightarrow> dflt)"

text \<open>
  A label of a shape: a decoded value as it is, or \<open>str(v)\<close> of a decoded value (the text
  Python prints for it is not modelled).
\<close>

datatype pylabel = Label json | StrOf json

text \<open>
  Modelled from the spec: the class \<open>Shape\<close> (\<open>anylabeling.views.labeling.shape\<close>) is not
  among the sources; a shape is a label, its points in the order they were added, and a
  shape type, as the specification's data model has it. \<open>QPointF(x, y)\<close> of PyQt takes two
  numbers (a Boolean counts as the integer it is) and is a \<open>TypeError\<close> on anything else.
\<close>

fun as_number :: "json \<Rightarrow> py_error + pynum" where
  "as_number (JNum n) = Inr n"
| "as_number (JBool b) = Inr (Fin (if b then 1 else 0))"
| "as_number _ = Inl TypeError"

definition qpointf :: "json \<Rightarrow> json \<Rightarrow> py_error + (pynum \<times> pynum)" where
  "qpointf x y =
     (case as_number x of
        Inl e \<Rightarrow> Inl e
      | Inr a \<Rightarrow> (case as_number y of Inl e \<Rightarrow> Inl e | Inr b \<Rightarrow> Inr (a, b)))"

text \<open>
  The state of the loops of \<open>postprocess\<close>: the shapes appended so far, and the exception
  that ended the work, if one was raised (the \<open>except\<close> of \<open>postprocess\<close> catches it and the
  shapes appended until then are returned).
\<close>

type_synonym shapes_state = "py_error option \<times> pylabel shape list"

text \<open>One entry of \<open>points\<close>, \<open>landmarks\<close> or \<open>keypoints\<close>.\<close>

definition point_shape :: "json \<Rightarrow> json \<Rightarrow> json \<Rightarrow> py_error + pylabel shape" where
  "point_shape lbl x y =
     (case qpointf x y of
        Inl e \<Rightarrow> Inl e
      | Inr p \<Rightarrow> Inr \<lparr>label = Label lbl, points = [p], shape_type = ''point''\<rparr>)"

fun add_points :: "pylabel shape list \<Rightarrow> json list \<Rightarrow> shapes_state" where
  "add_points shapes [] = (None, shapes)"
| "add_points shapes (point_data # rest) =
     (case point_data of
        JObj d \<Rightarrow>
          (case point_shape (dict_get d ''label'' (JStr (ustr ''point'')))
                  (dict_get d ''x'' (JNum (Fin 0))) (dict_get d ''y'' (JNum (Fin 0))) of
             Inl e \<Rightarrow> (Some e, shapes)
           | Inr sh \<Rightarrow> add_points (shapes @ [sh]) rest)
      | JArr [x, y] \<Rightarrow>
          (case point_shape (JStr (ustr ''point'')) x y of
             Inl e \<Rightarrow> (Some e, shapes)
           | Inr sh \<Rightarrow> add_points (shapes @ [sh]) rest)
      | _ \<Rightarrow> add_points shapes rest)"

text \<open>The rectangle of an object: its two corners as points.\<close>

definition box_shape :: "json \<Rightarrow> json \<Rightarrow> json \<Rightarrow> json \<Rightarrow> json \<Rightarrow> py_error + pylabel shape" where
  "box_shape lbl xmin ymin xmax ymax =
     (case qpointf xmin ymin of
        Inl e \<Rightarrow> Inl e
      | Inr p1 \<Rightarrow>
          (case qpointf xmax ymax of
             Inl e \<Rightarrow> Inl e
           | Inr p2 \<Rightarrow> Inr \<lparr>label = Label lbl, points = [p1, p2], shape_type = ''rectangle''\<rparr>))"

text \<open>The landmarks of an object, after its box.\<close>

definition object_points :: "pylabel shape list \<Rightarrow> (nat list \<times> json) list \<Rightarrow> shapes_state" where
  "object_points shapes obj =
     (let pts = dict_get obj ''points'' (dict_get obj ''landmarks'' (dict_get obj ''keypoints'' JNull))
      in if truthy pts then (case pts of JArr ps \<Rightarrow> add_points shapes ps | _ \<Rightarrow> (None, shapes))
         else (None, shapes))"

text \<open>The body of the loop over the objects, for one object.\<close>

definition process_object :: "pylabel shape list \<Rightarrow> json \<Rightarrow> shapes_state" where
  "process_object shapes obj =
     (case obj of
        JObj d \<Rightarrow>
          (let lbl = dict_get d ''label'' (dict_get d ''class'' (dict_get d ''category'' (JStr (ustr ''object''))));
               bbox = dict_get d ''bbox'' (dict_get d ''bounding_box'' (dict_get d ''box'' JNull))
           in if truthy bbox then
                (case bbox of
                   JArr [xmin, ymin, xmax, ymax] \<Rightarrow>
                     (case box_shape lbl xmin ymin xmax ymax of
                        Inl e \<Rightarrow> (Some e, shapes)
                      | Inr sh \<Rightarrow> object_points (shapes @ [sh]) d)
                 | JObj b \<Rightarrow>
                     (case box_shape lbl
                             (dict_get b ''xmin'' (dict_get b ''x1'' (JNum (Fin 0))))
                             (dict_get b ''ymin'' (dict_get b ''y1'' (JNum (Fin 0))))
                             (dict_get b ''xmax'' (dict_get b ''x2'' (JNum (Fin 0))))
                             (dict_get b ''ymax'' (dict_get b ''y2'' (JNum (Fin 0)))) of
                        Inl e \<Rightarrow> (Some e, shapes)
                      | Inr sh \<Rightarrow> object_points (shapes @ [sh]) d)
                 | _ \<Rightarrow> (None, shapes))
              else object_points shapes d)
      | _ \<Rightarrow> (None, shapes))"

fun process_objects :: "pylabel shape list \<Rightarrow> json list \<Rightarrow> shapes_state" where
  "process_objects shapes [] = (None, shapes)"
| "process_objects shapes (obj # objs) =
     (case process_object shapes obj of
        (Some e, shapes') \<Rightarrow> (Some e, shapes')
      | (None, shapes') \<Rightarrow> process_objects shapes' objs)"

text \<open>
  \<open>for obj in objects\<close>: a list gives its items; a dictionary gives its keys and a string its
  characters, none of which is a dictionary; anything else cannot be iterated.
\<close>

fun iterate_objects :: "json \<Rightarrow> shapes_state" where
  "iterate_objects (JArr objs) = process_objects [] objs"
| "iterate_objects (JObj d) = (None, [])"
| "iterate_objects (JStr s) = (None, [])"
| "iterate_objects _ = (Some TypeError, [])"

definition postprocess :: "string \<Rightarrow> nat \<Rightarrow> nat \<Rightarrow> pylabel shape list" where
  "postprocess response_text image_width image_height =
     (case extract_json_from_response response_text of
        None \<Rightarrow> []
      | Some response_data \<Rightarrow>
          if \<not> truthy response_data then []
          else
            (case response_data of
               JObj d \<Rightarrow>
                 if has_key ''objects'' d then snd (iterate_objects (dict_get d ''objects'' JNull))
                 else if has_key ''results'' d then snd (iterate_objects (dict_get d ''results'' JNull))
                 else if has_key ''detections'' d then snd (iterate_objects (dict_get d ''detections'' JNull))
                 else if has_key ''categories'' d then
                   (let category = dict_get d ''category'' (dict_get d ''categories'' JNull)
                    in if truthy category
                       then [\<lparr>label = StrOf category,
                              points = [(Fin 0, Fin 0), (Fin (of_nat image_width), Fin (of_nat image_height))],
                              shape_type = ''rectangle''\<rparr>]
                       else [])
                 else snd (iterate_objects (JArr [response_data]))
             | JArr objs \<Rightarrow> snd (iterate_objects response_data)
             | _ \<Rightarrow> []))"

lemmas postprocess_eval = postprocess_def extract_json_from_response_def rx_search.simps
  json_object_pattern_def json_array_pattern_def any_char_def dict_get_def has_key_def
  process_object_def object_points_def box_shape_def point_shape_def qpointf_def











section \<open>A streaming turn\<close>

text \<open>
  Modelled from the spec: the class \<open>StreamingHandler\<close> (\<open>anylabeling.views.labeling.chatbot\<close>)
  is not among the sources. It is the specification's stream session and channel: the text
  accumulated so far, the flag \<open>stop_requested\<close>, and the signals \<open>text_update\<close>,
  \<open>finished\<close> and \<open>error_occurred\<close>, which reach the slots of the dialog in the order in
  which they were emitted. \<open>append_text\<close> adds to the accumulated text and emits
  \<open>text_update\<close>; \<open>report_error\<close> emits \<open>error_occurred\<close>. The signal \<open>loading\<close>, which
  only enables and disables widgets, is left out.
\<close>

datatype signal = TextUpdate string | Finished bool | ErrorOccurred string

text \<open>
  What the model call yields to the worker, item by item: a chunk with its text (empty
  when the chunk has no content) or an exception with its message. The end of the list is
  the end of the stream.
\<close>

datatype item = Chunk string | Fault string

datatype thread_state = Running | Stopped

record session =
  current_message :: string
  stop_requested :: bool
  upstream :: "item list"
  worker :: thread_state
  poller :: thread_state
  channel :: "signal list"

definition emit :: "signal list \<Rightarrow> session \<Rightarrow> session" where
  "emit sigs s = s\<lparr>channel := channel s @ sigs\<rparr>"

text \<open>
  \<open>ChatbotDialog.stream_generation\<close>, one round of the worker: it takes the next item of
  the stream. An exception is reported and ends the turn with \<open>finished(False)\<close>. On a
  chunk the worker leaves the loop when \<open>stop_requested\<close> is set, and otherwise appends
  the text, if any. After the loop, at the end of the stream or after \<open>break\<close>, it emits
  \<open>finished(True)\<close>.
\<close>

definition worker_step :: "session \<Rightarrow> session" where
  "worker_step s =
     (if worker s = Stopped then s
      else case upstream s of
             [] \<Rightarrow> emit [Finished True] (s\<lparr>worker := Stopped\<rparr>)
           | Fault e # rest \<Rightarrow>
               emit [ErrorOccurred e, Finished False] (s\<lparr>upstream := rest, worker := Stopped\<rparr>)
           | Chunk content # rest \<Rightarrow>
               if stop_requested s
               then emit [Finished True] (s\<lparr>upstream := rest, worker := Stopped\<rparr>)
               else if content \<noteq> []
               then emit [TextUpdate content]
                      (s\<lparr>upstream := rest, current_message := current_message s @ content\<rparr>)
               else s\<lparr>upstream := rest\<rparr>)"

text \<open>
  \<open>check_for_cancellation\<close>, one round of the polling thread: when \<open>stop_requested\<close> is
  set it reports the cancellation if no text was accumulated, emits \<open>finished(False)\<close>
  and ends; otherwise it sleeps.
\<close>

definition poller_step :: "session \<Rightarrow> session" where
  "poller_step s =
     (if poller s = Stopped then s
      else if stop_requested s
      then emit ((if current_message s = [] then [ErrorOccurred ''Request cancelled by user''] else [])
                 @ [Finished False])
             (s\<lparr>poller := Stopped\<rparr>)
      else s)"

text \<open>\<open>stop_generation\<close>, the slot of the stop button.\<close>

definition stop_generation :: "session \<Rightarrow> session" where
  "stop_generation s = s\<lparr>stop_requested := True\<rparr>"

text \<open>
  A schedule says which of the three runs next; each round above is taken as one step.
\<close>

datatype action = UserStop | WorkerRound | PollerRound

fun step :: "action \<Rightarrow> session \<Rightarrow> session" where
  "step UserStop s = stop_generation s"
| "step WorkerRound s = worker_step s"
| "step PollerRound s = poller_step s"

definition run :: "action list \<Rightarrow> session \<Rightarrow> session" where
  "run schedule s = fold step schedule s"

text \<open>The session when the worker starts: the handler was reset in \<open>start_generation\<close>.\<close>

definition start_session :: "item list \<Rightarrow> session" where
  "start_session items =
     \<lparr>current_message = [], stop_requested = False, upstream = items,
      worker = Running, poller = Running, channel = []\<rparr>"

section \<open>The dialog's side of a turn\<close>

record message =
  role :: string
  content :: string
  image :: "string option"

text \<open>
  The loading message of the dialog: absent, or present with the text of its content
  label once \<open>update_output\<close> has created it.
\<close>

datatype loading = NoLoading | Loading "string option"

record dialog =
  chat_history :: "message list"
  loading_message :: loading
  streaming :: bool

text \<open>
  \<open>add_message\<close> for an assistant message: with \<open>delete_last_message\<close> the last message of
  the history is dropped and nothing is added; otherwise the message is appended.
\<close>

definition add_message :: "string \<Rightarrow> string \<Rightarrow> bool \<Rightarrow> dialog \<Rightarrow> dialog" where
  "add_message r c delete_last_message d =
     (if delete_last_message then d\<lparr>chat_history := butlast (chat_history d)\<rparr>
      else d\<lparr>chat_history := chat_history d @ [\<lparr>role = r, content = c, image = None\<rparr>]\<rparr>)"

definition update_output :: "string \<Rightarrow> dialog \<Rightarrow> dialog" where
  "update_output txt d =
     (case loading_message d of
        NoLoading \<Rightarrow> d
      | Loading None \<Rightarrow> d\<lparr>loading_message := Loading (Some txt)\<rparr>
      | Loading (Some current_text) \<Rightarrow> d\<lparr>loading_message := Loading (Some (current_text @ txt))\<rparr>)"

definition on_stream_finished :: "bool \<Rightarrow> dialog \<Rightarrow> dialog" where
  "on_stream_finished success d =
     (case loading_message d of
        Loading content_label \<Rightarrow>
          if success
          then (add_message ''assistant'' (case content_label of None \<Rightarrow> [] | Some final_text \<Rightarrow> final_text) False
                  (d\<lparr>loading_message := NoLoading\<rparr>))\<lparr>streaming := False\<rparr>
          else d\<lparr>streaming := False\<rparr>
      | NoLoading \<Rightarrow> d\<lparr>streaming := False\<rparr>)"

definition handle_error :: "string \<Rightarrow> dialog \<Rightarrow> dialog" where
  "handle_error error_message d =
     (case loading_message d of
        Loading content_label \<Rightarrow>
          add_message ''assistant'' (''Error: '' @ error_message) True (d\<lparr>loading_message := NoLoading\<rparr>)
      | NoLoading \<Rightarrow> d)"

fun slot :: "signal \<Rightarrow> dialog \<Rightarrow> dialog" where
  "slot (TextUpdate txt) d = update_output txt d"
| "slot (Finished success) d = on_stream_finished success d"
| "slot (ErrorOccurred e) d = handle_error e d"

definition deliver :: "signal list \<Rightarrow> dialog \<Rightarrow> dialog" where
  "deliver sigs d = fold slot sigs d"

text \<open>
  \<open>start_generation\<close>: the message of the user is added to the history, the loading
  message is created, the turn is streaming.
\<close>

definition start_generation :: "message list \<Rightarrow> message \<Rightarrow> dialog" where
  "start_generation history user_message =
     \<lparr>chat_history = history @ [user_message], loading_message = Loading None, streaming = True\<rparr>"

lemmas stream_eval = run_def start_session_def worker_step_def poller_step_def
  stop_generation_def emit_def

lemmas dialog_eval = deliver_def start_generation_def on_stream_finished_def handle_error_def
  update_output_def add_message_def

section \<open>The channel of a turn\<close>

text \<open>
  The texts the channel carries, and the texts of the chunks of a stream that have one. In
  every schedule the texts on the channel are, in order, the first texts of the stream.
\<close>

fun texts :: "signal list \<Rightarrow> string list" where
  "texts [] = []"
| "texts (TextUpdate t # sigs) = t # texts sigs"
| "texts (_ # sigs) = texts sigs"

fun chunk_texts :: "item list \<Rightarrow> string list" where
  "chunk_texts [] = []"
| "chunk_texts (Chunk c # items) = (if c \<noteq> [] then c # chunk_texts items else chunk_texts items)"
| "chunk_texts (Fault e # items) = chunk_texts items"

lemma texts_append: "texts (a @ b) = texts a @ texts b"
  by (induction a rule: texts.induct) auto

definition in_order :: "string list \<Rightarrow> session \<Rightarrow> bool" where
  "in_order T s =
     ((worker s = Running \<longrightarrow> texts (channel s) @ chunk_texts (upstream s) = T)
      \<and> (\<exists>rest. T = texts (channel s) @ rest))"

lemma in_order_step: "in_order T s \<Longrightarrow> in_order T (step a s)"
proof (cases a)
  case UserStop
  assume "in_order T s"
  then show ?thesis using UserStop by (simp add: in_order_def stop_generation_def)
next
  case PollerRound
  assume "in_order T s"
  then show ?thesis using PollerRound
    by (auto simp: in_order_def poller_step_def emit_def texts_append)
next
  case WorkerRound
  assume a: "in_order T s"
  show ?thesis
  proof (cases "worker s")
    case Stopped
    then show ?thesis using a WorkerRound by (simp add: worker_step_def)
  next
    case Running
    then have eq: "texts (channel s) @ chunk_texts (upstream s) = T"
      using a by (simp add: in_order_def)
    show ?thesis
    proof (cases "upstream s")
      case Nil
      then show ?thesis using a WorkerRound Running
        by (auto simp: in_order_def worker_step_def emit_def texts_append)
    next
      case (Cons i rest)
      show ?thesis
      proof (cases i)
        case (Fault e)
        then show ?thesis using a WorkerRound Running Cons
          by (auto simp: in_order_def worker_step_def emit_def texts_append)
      next
        case (Chunk c)
        show ?thesis
        proof (cases "stop_requested s")
          case True
          then show ?thesis using a WorkerRound Running Cons Chunk
            by (auto simp: in_order_def worker_step_def emit_def texts_append)
        next
          case False
          then show ?thesis using eq WorkerRound Running Cons Chunk
            by (auto simp: in_order_def worker_step_def emit_def texts_append)
        qed
      qed
    qed
  qed
qed

lemma in_order_run: "in_order T s \<Longrightarrow> in_order T (run schedule s)"
  unfolding run_def
  by (induction schedule arbitrary: s) (auto intro: in_order_step)

lemma text_updates_in_stream_order:
  "\<exists>rest. chunk_texts items = texts (channel (run schedule (start_session items))) @ rest"
proof -
  have "in_order (chunk_texts items) (start_session items)"
    by (simp add: in_order_def start_session_def)
  then have "in_order (chunk_texts items) (run schedule (start_session items))"
    by (rule in_order_run)
  then show ?thesis by (simp add: in_order_def)
qed

text \<open>
  A thread that has stopped has emitted its terminal event; so a turn of a stream without
  exception in which both threads have stopped (the polling thread stops only on
  \<open>stop_requested\<close>) carries both terminal events, in every schedule.
\<close>

fun no_fault :: "item list \<Rightarrow> bool" where
  "no_fault [] = True"
| "no_fault (Chunk c # items) = no_fault items"
| "no_fault (Fault e # items) = False"

definition terminated :: "session \<Rightarrow> bool" where
  "terminated s =
     (no_fault (upstream s)
      \<and> (worker s = Stopped \<longrightarrow> Finished True \<in> set (channel s))
      \<and> (poller s = Stopped \<longrightarrow> Finished False \<in> set (channel s)))"

lemma terminated_step: "terminated s \<Longrightarrow> terminated (step a s)"
proof (cases a)
  case UserStop
  assume "terminated s"
  then show ?thesis using UserStop by (simp add: terminated_def stop_generation_def)
next
  case PollerRound
  assume "terminated s"
  then show ?thesis using PollerRound
    by (auto simp: terminated_def poller_step_def emit_def)
next
  case WorkerRound
  assume a: "terminated s"
  show ?thesis
  proof (cases "upstream s")
    case Nil
    then show ?thesis using a WorkerRound
      by (auto simp: terminated_def worker_step_def emit_def)
  next
    case (Cons i rest)
    then obtain c where "i = Chunk c" using a by (cases i) (auto simp: terminated_def)
    then show ?thesis using a WorkerRound Cons
      by (auto simp: terminated_def worker_step_def emit_def)
  qed
qed

lemma terminated_run: "terminated s \<Longrightarrow> terminated (run schedule s)"
  unfolding run_def
  by (induction schedule arbitrary: s) (auto intro: terminated_step)

lemma stopped_turn_emits_both:
  assumes "no_fault items"
    and "worker (run schedule (start_session items)) = Stopped"
    and "poller (run schedule (start_session items)) = Stopped"
  shows "Finished True \<in> set (channel (run schedule (start_session items)))
         \<and> Finished False \<in> set (channel (run schedule (start_session items)))"
proof -
  have "terminated (start_session items)"
    using assms(1) by (simp add: terminated_def start_session_def)
  then have "terminated (run schedule (start_session items))" by (rule terminated_run)
  then show ?thesis using assms(2,3) by (simp add: terminated_def)
qed


text \<open>
  C2. When the user stops a turn while the worker is streaming, the channel carries both
  terminal events: the polling thread emits \<open>finished(False)\<close>, and the worker, which
  leaves its loop on the same flag, goes on to emit \<open>finished(True)\<close>.
\<close>

theorem cancel_while_streaming_emits_both:
  "channel (run [WorkerRound, UserStop, PollerRound, WorkerRound]
              (start_session [Chunk ''Hello'', Chunk '' world'']))
   = [TextUpdate ''Hello'', Finished False, Finished True]"
  by (simp add: stream_eval)

text \<open>
  C3. The turn is stopped before any chunk was accumulated, and the worker sees the flag
  before the polling thread does (a chunk arrives within the polling interval). The
  worker's \<open>finished(True)\<close> reaches the dialog first, while the loading message is still
  there: an assistant message with empty content is added to the history. The report
  of the cancellation, which comes next, finds no loading message and rolls nothing back.
\<close>

theorem cancel_before_first_chunk_commits_empty_message:
  "channel (run [UserStop, WorkerRound, PollerRound] (start_session [Chunk ''Hello'']))
     = [Finished True, ErrorOccurred ''Request cancelled by user'', Finished False]
   \<and> chat_history
       (deliver [Finished True, ErrorOccurred ''Request cancelled by user'', Finished False]
          (start_generation history user_message))
     = history @ [user_message, \<lparr>role = ''assistant'', content = [], image = None\<rparr>]"
  by (simp add: stream_eval dialog_eval)

text \<open>
  When the polling thread is first, the report of the cancellation comes first: the
  history is rolled back to what it was before the turn.
\<close>

lemma cancel_before_first_chunk_poller_first:
  "channel (run [UserStop, PollerRound, WorkerRound] (start_session [Chunk ''Hello'']))
     = [ErrorOccurred ''Request cancelled by user'', Finished False, Finished True]
   \<and> chat_history
       (deliver [ErrorOccurred ''Request cancelled by user'', Finished False, Finished True]
          (start_generation history user_message))
     = history"
  by (simp add: stream_eval dialog_eval)


section \<open>Writing the annotation document\<close>

text \<open>
  The files are a map from paths to contents. A write can fail: \<open>open(path, 'w')\<close> can
  raise before it touches the file, and \<open>json.dump\<close> can raise (or the disk can fill up)
  after some of the text has been written; \<open>WriteFails n\<close> is a failure after \<open>n\<close>
  characters reached the file.
\<close>

type_synonym files = "string \<rightharpoonup> string"

datatype io_fault = NoFault | OpenFails | WriteFails nat

text \<open>
  \<^verbatim>\<open>with open(path, 'w', encoding='utf-8') as f: json.dump(data, f, ...)\<close>, as it stands
  in \<open>save_chat_history_with_prefix\<close> and in \<open>generate_xlabel_from_assistant_response\<close>, for
  the text \<open>json.dump\<close> produces: opening for writing empties the file, the text is then
  written into it. The result says whether the statement completed.
\<close>

definition write_document :: "files \<Rightarrow> string \<Rightarrow> string \<Rightarrow> io_fault \<Rightarrow> files \<times> bool" where
  "write_document fs path text fault =
     (case fault of
        OpenFails \<Rightarrow> (fs, False)
      | WriteFails n \<Rightarrow>
          if n < length text then (fs(path \<mapsto> take n text), False)
          else (fs(path \<mapsto> text), True)
      | NoFault \<Rightarrow> (fs(path \<mapsto> text), True))"

text \<open>
  \<open>save_chat_history_with_prefix\<close>: the document at the path, if there is one, is read and
  decoded (an empty dictionary otherwise), its \<open>chat_history\<close> is replaced, and the document
  is written back. \<open>dumps\<close> is the text \<open>json.dump\<close> writes for a document. Every
  exception is caught and logged: the function returns the files as they are then.
\<close>

definition save_chat_history_with_prefix ::
  "(json \<Rightarrow> string) \<Rightarrow> files \<Rightarrow> string \<Rightarrow> json \<Rightarrow> io_fault \<Rightarrow> files" where
  "save_chat_history_with_prefix dumps fs chatbot_filepath history fault =
     (case (case fs chatbot_filepath of None \<Rightarrow> Some (JObj []) | Some old \<Rightarrow> json_loads old) of
        Some (JObj label_file_data) \<Rightarrow>
          fst (write_document fs chatbot_filepath
                 (dumps (JObj (dict_set label_file_data (ustr ''chat_history'') history))) fault)
      | _ \<Rightarrow> fs)"

text \<open>
  C10. A write that fails after the first character leaves the file with that one
  character: neither the new document nor the document that was there.
\<close>

theorem write_document_not_atomic:
  "fst (write_document [''chatbot_cat.json'' \<mapsto> ''{\"shapes\": []}''] ''chatbot_cat.json''
          ''{\"shapes\": [], \"chat_history\": []}'' (WriteFails 1)) ''chatbot_cat.json''
     = Some ''{''
   \<and> \<not> (fst (write_document [''chatbot_cat.json'' \<mapsto> ''{\"shapes\": []}''] ''chatbot_cat.json''
               ''{\"shapes\": [], \"chat_history\": []}'' (WriteFails 1)) ''chatbot_cat.json''
            = Some ''{\"shapes\": [], \"chat_history\": []}''
          \<or> fst (write_document [''chatbot_cat.json'' \<mapsto> ''{\"shapes\": []}''] ''chatbot_cat.json''
               ''{\"shapes\": [], \"chat_history\": []}'' (WriteFails 1)) ''chatbot_cat.json''
            = [''chatbot_cat.json'' \<mapsto> ''{\"shapes\": []}''] ''chatbot_cat.json'')"
  by (simp add: write_document_def)

text \<open>
  C10, as the code has it. The document is written in place. A write that completes leaves the
  full document at the path. A write that fails leaves either the file as it was (the file
  could not be opened) or a proper prefix of the new document, the former content being
  lost. No other path is touched. \<open>save_chat_history_with_prefix\<close> is this write of the
  document read from the path with its \<open>chat_history\<close> replaced, and writes nothing when
  the file at the path does not decode.
\<close>

theorem write_document_in_place:
  "(snd (write_document fs path text fault) \<longrightarrow> fst (write_document fs path text fault) path = Some text)
   \<and> (\<not> snd (write_document fs path text fault) \<longrightarrow>
        fst (write_document fs path text fault) path = fs path
        \<or> (\<exists>n<length text. fst (write_document fs path text fault) path = Some (take n text)))
   \<and> (fault = NoFault \<longrightarrow> snd (write_document fs path text fault))
   \<and> (fault = OpenFails \<longrightarrow> fst (write_document fs path text fault) = fs)
   \<and> (other \<noteq> path \<longrightarrow> fst (write_document fs path text fault) other = fs other)
   \<and> (fs path = Some old \<and> json_loads old = Some (JObj d) \<longrightarrow>
        save_chat_history_with_prefix dumps fs path history fault
        = fst (write_document fs path (dumps (JObj (dict_set d (ustr ''chat_history'') history))) fault))
   \<and> (fs path = Some old \<and> json_loads old = None \<longrightarrow>
        save_chat_history_with_prefix dumps fs path history fault = fs)"
  by (cases fault) (auto simp: write_document_def save_chat_history_with_prefix_def)

theorem write_document_in_place_witness:
  "snd (write_document [''a.json'' \<mapsto> ''{}''] ''a.json'' ''{\"chat_history\": []}'' NoFault)
   \<and> fst (write_document [''a.json'' \<mapsto> ''{}''] ''a.json'' ''{\"chat_history\": []}'' NoFault) ''a.json''
       = Some ''{\"chat_history\": []}''
   \<and> \<not> snd (write_document [''a.json'' \<mapsto> ''{}''] ''a.json'' ''{\"chat_history\": []}'' (WriteFails 1))
   \<and> fst (write_document [''a.json'' \<mapsto> ''{}''] ''a.json'' ''{\"chat_history\": []}'' (WriteFails 1)) ''a.json''
       = Some ''{''
   \<and> fst (write_document [''a.json'' \<mapsto> ''{}''] ''a.json'' ''{\"chat_history\": []}'' OpenFails)
       = [''a.json'' \<mapsto> ''{}'']
   \<and> fst (write_document [''a.json'' \<mapsto> ''{}''] ''a.json'' ''{\"chat_history\": []}'' NoFault) ''b.json''
       = None
   \<and> save_chat_history_with_prefix (\<lambda>doc. ''{\"chat_history\": []}'') [''a.json'' \<mapsto> ''{}''] ''a.json''
         (JArr []) (WriteFails 1) ''a.json'' = Some ''{''
   \<and> save_chat_history_with_prefix (\<lambda>doc. ''{\"chat_history\": []}'') [''a.json'' \<mapsto> ''{''] ''a.json''
         (JArr []) NoFault = [''a.json'' \<mapsto> ''{'']"
proof -
  let ?fs = "[''a.json'' \<mapsto> ''{}'']"
  let ?text = "''{\"chat_history\": []}''"
  have a: "snd (write_document ?fs ''a.json'' ?text NoFault)"
    by (simp add: write_document_def)
  have b: "\<not> snd (write_document ?fs ''a.json'' ?text (WriteFails 1))"
    by (simp add: write_document_def)
  have c: "fst (write_document ?fs ''a.json'' ?text (WriteFails 1)) ''a.json'' = Some ''{''"
    by (simp add: write_document_def)
  have d: "''b.json'' \<noteq> ''a.json''" by simp
  have e: "?fs ''b.json'' = None" by simp
  have f: "?fs ''a.json'' = Some ''{}'' \<and> json_loads ''{}'' = Some (JObj [])"
    by (simp add: json_eval)
  have g: "[''a.json'' \<mapsto> ''{''] ''a.json'' = Some ''{'' \<and> json_loads ''{'' = None"
    by (simp add: json_eval)
  show ?thesis
    using a b c d e f g
      write_document_in_place [of ?fs "''a.json''" ?text NoFault "''b.json''" "''{}''" "[]"
        "\<lambda>doc. ''{\"chat_history\": []}''" "JArr []"]
      write_document_in_place [of ?fs "''a.json''" ?text OpenFails "''b.json''"]
      write_document_in_place [of ?fs "''a.json''" ?text "WriteFails 1" "''b.json''" "''{}''" "[]"
        "\<lambda>doc. ''{\"chat_history\": []}''" "JArr []"]
      write_document_in_place [of "[''a.json'' \<mapsto> ''{'']" "''a.json''" ?text NoFault "''b.json''" "''{''" "[]"
        "\<lambda>doc. ''{\"chat_history\": []}''" "JArr []"]
    by simp
qed


end
